theory Spec2Isabelle
  imports Main "HOL-Library.Sublist"
begin

section \<open>The project file patcher \<^verbatim>\<open>macos/fix_project.py\<close>\<close>

text \<open>
  The script reads \<^verbatim>\<open>Runner.xcodeproj/project.pbxproj\<close> as text, rewrites the text
  with one \<^verbatim>\<open>re.search\<close> + \<^verbatim>\<open>str.replace\<close> and two \<^verbatim>\<open>re.sub\<close> calls, copies the file
  on disk to \<^verbatim>\<open>project.pbxproj.backup\<close> and writes the rewritten text back.

  Text is a \<^typ>\<open>string\<close>. The three regular expressions of the script are written down as
  data and run by a backtracking matcher with Python's priorities (leftmost start, lazy
  and greedy quantifiers tried in their order). The file system is a map from paths to
  file contents, standard output a list of messages.
\<close>

subsection \<open>Regular expressions as the script uses them\<close>

text \<open>
  An atom matches one character: a literal, the dot, or a bracket class given by its
  ranges (\<^verbatim>\<open>[A-F0-9]\<close> is the ranges A-F and 0-9). The dot matches every character but
  the newline, and the newline as well under \<^verbatim>\<open>re.DOTALL\<close>.
\<close>

datatype atom = Lit char | Dot | Cls "(char \<times> char) list"

text \<open>
  An item is an atom with its quantifier: none, \<^verbatim>\<open>*?\<close>, \<^verbatim>\<open>*\<close>, \<^verbatim>\<open>+\<close> or \<^verbatim>\<open>?\<close>.
  A pattern is a sequence of items. (The script has no alternation, group or anchor.)
\<close>

datatype item = Once atom | LazyStar atom | GreedyStar atom | GreedyPlus atom | GreedyOpt atom

type_synonym regex = "item list"

definition NL :: char where
  "NL = CHR 0x0A"

definition TAB :: char where
  "TAB = CHR 0x09"

fun atom_ok :: "bool \<Rightarrow> atom \<Rightarrow> char \<Rightarrow> bool" where
  "atom_ok dotall (Lit x) c = (c = x)"
| "atom_ok dotall Dot c = (dotall \<or> c \<noteq> NL)"
| "atom_ok dotall (Cls rs) c =
     (\<exists>(lo, hi) \<in> set rs. (of_char lo :: nat) \<le> of_char c \<and> (of_char c :: nat) \<le> of_char hi)"

text \<open>
  \<open>re_match dotall p s\<close> matches the pattern at the start of \<open>s\<close> and returns the
  number of characters of the first match in backtracking order, or \<open>None\<close>.
  A lazy star first tries the rest of the pattern and takes one more character only
  when that fails; a greedy quantifier first takes a character and gives it back only
  when the rest fails.
\<close>

fun re_match :: "bool \<Rightarrow> regex \<Rightarrow> string \<Rightarrow> nat option" where
  "re_match d [] s = Some 0"
| "re_match d (Once a # r) [] = None"
| "re_match d (Once a # r) (c # cs) =
     (if atom_ok d a c then map_option Suc (re_match d r cs) else None)"
| "re_match d (LazyStar a # r) [] = re_match d r []"
| "re_match d (LazyStar a # r) (c # cs) =
     (case re_match d r (c # cs) of
        Some n \<Rightarrow> Some n
      | None \<Rightarrow> if atom_ok d a c then map_option Suc (re_match d (LazyStar a # r) cs) else None)"
| "re_match d (GreedyStar a # r) [] = re_match d r []"
| "re_match d (GreedyStar a # r) (c # cs) =
     (if atom_ok d a c
      then (case re_match d (GreedyStar a # r) cs of
              Some n \<Rightarrow> Some (Suc n)
            | None \<Rightarrow> re_match d r (c # cs))
      else re_match d r (c # cs))"
| "re_match d (GreedyPlus a # r) [] = None"
| "re_match d (GreedyPlus a # r) (c # cs) =
     (if atom_ok d a c then map_option Suc (re_match d (GreedyStar a # r) cs) else None)"
| "re_match d (GreedyOpt a # r) [] = re_match d r []"
| "re_match d (GreedyOpt a # r) (c # cs) =
     (if atom_ok d a c
      then (case re_match d r cs of
              Some n \<Rightarrow> Some (Suc n)
            | None \<Rightarrow> re_match d r (c # cs))
      else re_match d r (c # cs))"

text \<open>
  \<^verbatim>\<open>re.search\<close>: the match at the leftmost start position that has one, as the pair
  (start, end) of the match object.
\<close>

fun re_search :: "bool \<Rightarrow> regex \<Rightarrow> string \<Rightarrow> (nat \<times> nat) option" where
  "re_search d p [] = map_option (\<lambda>n. (0, n)) (re_match d p [])"
| "re_search d p (c # cs) =
     (case re_match d p (c # cs) of
        Some n \<Rightarrow> Some (0, n)
      | None \<Rightarrow> map_option (\<lambda>(b, e). (Suc b, Suc e)) (re_search d p cs))"

text \<open>\<^verbatim>\<open>match.group(0)\<close>: the matched text \<^verbatim>\<open>s[b:e]\<close>.\<close>

definition group0 :: "string \<Rightarrow> nat \<times> nat \<Rightarrow> string" where
  "group0 s m = take (snd m - fst m) (drop (fst m) s)"

text \<open>
  \<^verbatim>\<open>re.sub(p, repl, s)\<close>: the non-overlapping matches are replaced from left to right,
  the search going on behind each match; a character where no match starts is copied.
  An empty match is replaced and the next character copied; the patterns of the
  script never match the empty string (lemma \<open>line_patterns_nonempty\<close> below).
\<close>

function re_sub :: "bool \<Rightarrow> regex \<Rightarrow> string \<Rightarrow> string \<Rightarrow> string" where
  "re_sub d p repl [] = (case re_match d p [] of Some n \<Rightarrow> repl | None \<Rightarrow> [])"
| "re_sub d p repl (c # cs) =
     (case re_match d p (c # cs) of
        Some n \<Rightarrow>
          if n = 0 then repl @ c # re_sub d p repl cs
          else repl @ re_sub d p repl (drop (n - 1) cs)
      | None \<Rightarrow> c # re_sub d p repl cs)"
  by pat_completeness auto
termination
  by (relation "measure (\<lambda>(d, p, repl, s). length s)") auto

text \<open>
  \<^verbatim>\<open>str.replace(old, new)\<close>: every non-overlapping occurrence of \<open>old\<close>, from left to
  right, becomes \<open>new\<close>. For the empty \<open>old\<close> Python puts \<open>new\<close> before every
  character and at the end.
\<close>

function py_replace :: "string \<Rightarrow> string \<Rightarrow> string \<Rightarrow> string" where
  "py_replace old new s =
     (if old = [] then new @ concat (map (\<lambda>c. c # new) s)
      else if prefix old s then new @ py_replace old new (drop (length old) s)
      else (case s of [] \<Rightarrow> [] | c # cs \<Rightarrow> c # py_replace old new cs))"
  by pat_completeness auto
termination
  by (relation "measure (\<lambda>(old, new, s). length s)") (auto simp: prefix_def)

declare py_replace.simps [simp del]

subsection \<open>The patterns and the text transformation\<close>

definition lit :: "string \<Rightarrow> regex" where
  "lit w = map (\<lambda>c. Once (Lit c)) w"

definition begin_marker :: string where
  "begin_marker = ''/* Begin PBXShellScriptBuildPhase section */''"

definition end_marker :: string where
  "end_marker = ''/* End PBXShellScriptBuildPhase section */''"

text \<open>
  \<^verbatim>\<open>pattern = r'/\* Begin PBXShellScriptBuildPhase section \*/.*?/\* End PBXShellScriptBuildPhase section \*/'\<close>
\<close>

definition pattern :: regex where
  "pattern = lit begin_marker @ [LazyStar Dot] @ lit end_marker"

text \<open>
  \<^verbatim>\<open>new_section = "/* Begin PBXShellScriptBuildPhase section */\n\t\t/* End PBXShellScriptBuildPhase section */"\<close>
\<close>

definition new_section :: string where
  "new_section = begin_marker @ [NL, TAB, TAB] @ end_marker"

definition tabs4 :: string where
  "tabs4 = [TAB, TAB, TAB, TAB]"

definition phase_comment :: string where
  "phase_comment = '' /* PBXShellScriptBuildPhase */''"

text \<open>The class \<^verbatim>\<open>[A-F0-9]\<close>.\<close>

definition hex_class :: atom where
  "hex_class = Cls [(CHR ''A'', CHR ''F''), (CHR ''0'', CHR ''9'')]"

text \<open>\<^verbatim>\<open>r'\t\t\t\t[A-F0-9]+ /\* PBXShellScriptBuildPhase \*/,?\n'\<close>\<close>

definition phase_ref_pattern :: regex where
  "phase_ref_pattern =
     lit tabs4 @ [GreedyPlus hex_class] @ lit phase_comment @ [GreedyOpt (Lit (CHR '',''))]
       @ lit [NL]"

definition fixed_id :: string where
  "fixed_id = ''33CC111E2044C6BF0003C045''"

text \<open>\<^verbatim>\<open>r'\t\t\t\t33CC111E2044C6BF0003C045.*?\n'\<close>\<close>

definition fixed_id_pattern :: regex where
  "fixed_id_pattern = lit tabs4 @ lit fixed_id @ [LazyStar Dot] @ lit [NL]"

text \<open>
  The section step: \<^verbatim>\<open>match = re.search(pattern, content, re.DOTALL)\<close>, and when there
  is a match, \<^verbatim>\<open>content = content.replace(match.group(0), new_section)\<close>.
\<close>

definition replace_section :: "string \<Rightarrow> string" where
  "replace_section content =
     (case re_search True pattern content of
        Some m \<Rightarrow> py_replace (group0 content m) new_section content
      | None \<Rightarrow> content)"

definition strip_phase_refs :: "string \<Rightarrow> string" where
  "strip_phase_refs content = re_sub False phase_ref_pattern [] content"

definition strip_fixed_id :: "string \<Rightarrow> string" where
  "strip_fixed_id content = re_sub False fixed_id_pattern [] content"

text \<open>
  The text the script writes back, from the text it read: lines 17 to 33 as a function
  on texts.
\<close>

definition transform :: "string \<Rightarrow> string" where
  "transform content = strip_fixed_id (strip_phase_refs (replace_section content))"

subsection \<open>Files, standard output and the script\<close>

text \<open>
  A file holds bytes; reading in text mode decodes them and writing encodes the text
  (Python's locale encoding and newline translation). The codec is a parameter of the
  model, and both directions can fail. Failures of the operating system other than a
  missing file (permissions, a full disk) are outside the model, and standard output
  takes every message.
\<close>

datatype error = FileNotFoundError | UnicodeDecodeError | UnicodeEncodeError

datatype msg =
    Reading_project_file
  | Original_file_size nat
  | Removed_shell_scripts
  | No_section_found
  | Modified_file_size nat
  | Created_backup string
  | Updated_successfully
  | Next_steps

record codec =
  decode :: "string \<Rightarrow> string option"
  encode :: "string \<Rightarrow> string option"

record world =
  files :: "string \<rightharpoonup> string"
  stdout :: "msg list"

definition py_print :: "msg \<Rightarrow> world \<Rightarrow> world" where
  "py_print m w = w\<lparr>stdout := stdout w @ [m]\<rparr>"

definition project_file :: string where
  "project_file = ''Runner.xcodeproj/project.pbxproj''"

definition backup_file :: string where
  "backup_file = project_file @ ''.backup''"

text \<open>\<^verbatim>\<open>with open(path, 'r') as f: content = f.read()\<close>\<close>

definition read_text :: "codec \<Rightarrow> string \<Rightarrow> world \<Rightarrow> error + string" where
  "read_text cd path w =
     (case files w path of
        None \<Rightarrow> Inl FileNotFoundError
      | Some bytes \<Rightarrow>
          (case decode cd bytes of None \<Rightarrow> Inl UnicodeDecodeError | Some t \<Rightarrow> Inr t))"

text \<open>\<^verbatim>\<open>shutil.copy(src, dst)\<close>: the bytes of \<open>src\<close> on disk become the contents of \<open>dst\<close>.\<close>

definition shutil_copy :: "string \<Rightarrow> string \<Rightarrow> world \<Rightarrow> error + world" where
  "shutil_copy src dst w =
     (case files w src of
        None \<Rightarrow> Inl FileNotFoundError
      | Some bytes \<Rightarrow> Inr (w\<lparr>files := (files w)(dst \<mapsto> bytes)\<rparr>))"

text \<open>
  \<^verbatim>\<open>with open(path, 'w') as f: f.write(content)\<close>: opening truncates the file, so a
  text that cannot be encoded leaves it empty.
\<close>

definition write_text :: "codec \<Rightarrow> string \<Rightarrow> string \<Rightarrow> world \<Rightarrow> (error \<times> world) + world" where
  "write_text cd path content w =
     (case encode cd content of
        None \<Rightarrow> Inl (UnicodeEncodeError, w\<lparr>files := (files w)(path \<mapsto> [])\<rparr>)
      | Some bytes \<Rightarrow> Inr (w\<lparr>files := (files w)(path \<mapsto> bytes)\<rparr>))"

text \<open>
  The script in its three phases. An uncaught exception ends the run: the result is
  then the error with the world as it was left.

  Lines 9 to 35: read the file, transform the text in memory, report both sizes.
\<close>

definition read_and_transform :: "codec \<Rightarrow> world \<Rightarrow> (error \<times> world) + (string \<times> world)" where
  "read_and_transform cd w0 =
     (let w1 = py_print Reading_project_file w0 in
      case read_text cd project_file w1 of
        Inl e \<Rightarrow> Inl (e, w1)
      | Inr content \<Rightarrow>
          let w2 = py_print (Original_file_size (length content)) w1;
              (content1, w3) =
                (case re_search True pattern content of
                   Some m \<Rightarrow>
                     (py_replace (group0 content m) new_section content,
                      py_print Removed_shell_scripts w2)
                 | None \<Rightarrow> (content, py_print No_section_found w2));
              content2 = re_sub False phase_ref_pattern [] content1;
              content3 = re_sub False fixed_id_pattern [] content2
          in Inr (content3, py_print (Modified_file_size (length content3)) w3))"

text \<open>Lines 37 to 40: \<^verbatim>\<open>shutil.copy(project_file, project_file + '.backup')\<close>.\<close>

definition backup_step :: "world \<Rightarrow> (error \<times> world) + world" where
  "backup_step w =
     (case shutil_copy project_file backup_file w of
        Inl e \<Rightarrow> Inl (e, w)
      | Inr w' \<Rightarrow> Inr (py_print (Created_backup backup_file) w'))"

text \<open>Lines 42 to 50: write the transformed text to the project file.\<close>

definition write_step :: "codec \<Rightarrow> string \<Rightarrow> world \<Rightarrow> (error \<times> world) + world" where
  "write_step cd content w =
     (case write_text cd project_file content w of
        Inl ew \<Rightarrow> Inl ew
      | Inr w' \<Rightarrow> Inr (py_print Next_steps (py_print Updated_successfully w')))"

definition run_script :: "codec \<Rightarrow> world \<Rightarrow> (error \<times> world) + world" where
  "run_script cd w =
     (case read_and_transform cd w of
        Inl ew \<Rightarrow> Inl ew
      | Inr (content, w1) \<Rightarrow>
          (case backup_step w1 of
             Inl ew \<Rightarrow> Inl ew
           | Inr w2 \<Rightarrow> write_step cd content w2))"

subsection \<open>The example of the specification\<close>

definition example_input :: string where
  "example_input =
     begin_marker @ [NL, TAB, TAB] @ ''1234ABCD /* Flutter Assemble */ = {...};'' @ [NL]
       @ end_marker"

subsection \<open>Concrete inputs\<close>

definition repeated_section_input :: string where
  "repeated_section_input =
     begin_marker @ ''x'' @ end_marker @ ''y'' @ begin_marker @ ''x'' @ end_marker"

definition framed_input :: string where
  "framed_input = ''ab'' @ begin_marker @ ''xyz12'' @ end_marker @ ''cd''"

definition short_body_input :: string where
  "short_body_input = begin_marker @ ''x'' @ end_marker"

definition no_section_input :: string where
  "no_section_input =
     tabs4 @ ''AB12'' @ phase_comment @ '','' @ [NL] @ ''keep'' @ [NL]
       @ tabs4 @ fixed_id @ '' /* ShellScript */,'' @ [NL]"

text \<open>A codec that stores the text as it is, and two file systems to run the script on.\<close>

definition codec0 :: codec where
  "codec0 = \<lparr>decode = Some, encode = Some\<rparr>"

definition world0 :: world where
  "world0 = \<lparr>files = [project_file \<mapsto> example_input, backup_file \<mapsto> ''old backup''], stdout = []\<rparr>"

definition world_plain :: world where
  "world_plain = \<lparr>files = [project_file \<mapsto> no_section_input], stdout = []\<rparr>"

definition bare_id_line :: string where
  "bare_id_line = fixed_id @ '' /* ShellScript */,'' @ [NL]"

definition unterminated_id_line :: string where
  "unterminated_id_line = tabs4 @ fixed_id @ '' /* ShellScript */,''"

definition split_id_input :: string where
  "split_id_input =
     tabs4 @ ''33CC111E2044'' @ tabs4 @ fixed_id @ '' x'' @ [NL] @ ''C6BF0003C045 y'' @ [NL]"

definition id_lines_input :: string where
  "id_lines_input =
     ''keep'' @ [NL] @ tabs4 @ fixed_id @ '' /* ShellScript */,'' @ [NL] @ ''more'' @ [NL]"

definition three_tab_line :: string where
  "three_tab_line = [TAB, TAB, TAB] @ ''AB12'' @ phase_comment @ '','' @ [NL]"

definition lower_case_line :: string where
  "lower_case_line = tabs4 @ ''ab12'' @ phase_comment @ '','' @ [NL]"

definition joined_input :: string where
  "joined_input = tabs4 @ ''AB'' @ tabs4 @ ''CD'' @ phase_comment @ [NL] @ phase_comment @ [NL]"

definition phase_lines_input :: string where
  "phase_lines_input =
     ''keep'' @ [NL] @ tabs4 @ ''AB12'' @ phase_comment @ '','' @ [NL] @ ''more'' @ [NL]"


definition eaten_stub_input :: string where
  "eaten_stub_input = tabs4 @ fixed_id @ '' = '' @ begin_marker @ ''x'' @ end_marker"

definition two_sections_input :: string where
  "two_sections_input =
     begin_marker @ ''one'' @ end_marker @ ''mid'' @ begin_marker @ ''two'' @ end_marker"

text \<open>A cut-down project file: a build phase list and the shell script section.\<close>

definition build_phases_input :: string where
  "build_phases_input =
     [TAB, TAB, TAB] @ ''buildPhases = ('' @ [NL]
     @ tabs4 @ ''33CC10E92044A3C60003C045 /* Sources */,'' @ [NL]
     @ tabs4 @ ''3399D490228B24CF009A79C7'' @ phase_comment @ '','' @ [NL]
     @ tabs4 @ fixed_id @ '' /* ShellScript */,'' @ [NL]
     @ [TAB, TAB, TAB] @ '');'' @ [NL]
     @ begin_marker @ [NL]
     @ [TAB, TAB] @ ''3399D490228B24CF009A79C7 /* ShellScript */ = {'' @ [NL]
     @ [TAB, TAB, TAB] @ ''shellScript = x;'' @ [NL]
     @ [TAB, TAB] @ ''};'' @ [NL]
     @ end_marker @ [NL]"

subsection \<open>Auxiliary notions for the proofs\<close>

text \<open>The first position at which \<open>w\<close> occurs in a text, and all positions.\<close>

fun find_sub :: "string \<Rightarrow> string \<Rightarrow> nat option" where
  "find_sub w [] = (if w = [] then Some 0 else None)"
| "find_sub w (c # cs) = (if prefix w (c # cs) then Some 0 else map_option Suc (find_sub w cs))"

fun occurrences :: "string \<Rightarrow> string \<Rightarrow> nat list" where
  "occurrences w [] = (if w = [] then [0] else [])"
| "occurrences w (c # cs) =
     (if prefix w (c # cs) then [0] else []) @ map Suc (occurrences w cs)"

text \<open>A pattern none of whose atoms accepts the newline (without \<^verbatim>\<open>re.DOTALL\<close>).\<close>

fun item_atom :: "item \<Rightarrow> atom" where
  "item_atom (Once a) = a"
| "item_atom (LazyStar a) = a"
| "item_atom (GreedyStar a) = a"
| "item_atom (GreedyPlus a) = a"
| "item_atom (GreedyOpt a) = a"

definition nl_free :: "regex \<Rightarrow> bool" where
  "nl_free p = (\<forall>i \<in> set p. \<not> atom_ok False (item_atom i) NL)"




text \<open>
  A line pattern: it ends with the newline, no atom before that accepts a newline, and
  it matches only where four tabs stand. Both patterns of the substitutions are such.
\<close>

definition line_pattern :: "regex \<Rightarrow> bool" where
  "line_pattern P \<longleftrightarrow>
     (\<exists>p. P = p @ [Once (Lit NL)] \<and> nl_free p)
     \<and> (\<forall>s. \<not> prefix tabs4 s \<longrightarrow> re_match False P s = None)"



section \<open>Lemmas\<close>

subsection \<open>The matcher\<close>


lemma re_match_le: "re_match d p s = Some n \<Longrightarrow> n \<le> length s"
  by (induction d p s arbitrary: n rule: re_match.induct)
     (auto split: if_splits option.splits)

lemma re_match_lit:
  "re_match d (lit w @ r) s =
     (if prefix w s then map_option (\<lambda>n. length w + n) (re_match d r (drop (length w) s)) else None)"
proof (induction w arbitrary: s)
  case Nil
  show ?case by (cases "re_match d r s") (simp_all add: lit_def)
next
  case (Cons x w)
  show ?case
  proof (cases s)
    case Nil
    then show ?thesis by (simp add: lit_def)
  next
    case (Cons c cs)
    with Cons.IH [of cs] show ?thesis
      by (auto simp: lit_def option.map_comp comp_def)
  qed
qed

lemma re_match_lit_only:
  "re_match d (lit w) s = (if prefix w s then Some (length w) else None)"
  using re_match_lit [of d w "[]" s] by simp

lemma lazy_dotall_lit:
  "re_match True (LazyStar Dot # lit w) s = map_option (\<lambda>k. k + length w) (find_sub w s)"
proof (induction s)
  case Nil
  show ?case by (simp add: re_match_lit_only)
next
  case (Cons c cs)
  then show ?case
    by (simp add: re_match_lit_only option.map_comp comp_def)
qed


lemma find_sub_Some_D:
  "find_sub w s = Some k \<Longrightarrow> k \<le> length s \<and> prefix w (drop k s) \<and> (\<forall>j<k. \<not> prefix w (drop j s))"
proof (induction s arbitrary: k)
  case Nil
  then show ?case by (auto split: if_splits)
next
  case (Cons c cs)
  show ?case
  proof (cases "prefix w (c # cs)")
    case True
    with Cons.prems show ?thesis by simp
  next
    case False
    with Cons.prems obtain k' where k': "find_sub w cs = Some k'" "k = Suc k'"
      by auto
    from Cons.IH [OF k'(1)] False k'(2) show ?thesis
      by (auto simp: less_Suc_eq_0_disj)
  qed
qed

lemma find_sub_None_D:
  "find_sub w s = None \<Longrightarrow> j \<le> length s \<Longrightarrow> \<not> prefix w (drop j s)"
proof (induction s arbitrary: j)
  case Nil
  then show ?case by (auto split: if_splits)
next
  case (Cons c cs)
  then show ?case
    by (cases j) (auto split: if_splits)
qed

lemma find_sub_prefix_at:
  "prefix w (drop j s) \<Longrightarrow> j \<le> length s \<Longrightarrow> \<exists>k\<le>j. find_sub w s = Some k"
  by (cases "find_sub w s") (auto dest: find_sub_None_D find_sub_Some_D simp: not_less [symmetric])

lemma find_sub_append: "\<exists>k\<le>length a. find_sub w (a @ w @ c) = Some k"
  by (rule find_sub_prefix_at) simp_all



lemma re_search_Some_D:
  "re_search d p s = Some (b, e) \<Longrightarrow>
     b \<le> e \<and> e \<le> length s \<and> re_match d p (drop b s) = Some (e - b)
       \<and> (\<forall>j<b. re_match d p (drop j s) = None)"
proof (induction s arbitrary: b e)
  case Nil
  then show ?case by (auto dest: re_match_le)
next
  case (Cons c cs)
  show ?case
  proof (cases "re_match d p (c # cs)")
    case (Some n)
    with Cons.prems show ?thesis by (auto dest: re_match_le)
  next
    case None
    with Cons.prems obtain b' e' where s: "re_search d p cs = Some (b', e')" "b = Suc b'" "e = Suc e'"
      by auto
    from Cons.IH [OF s(1)] None s(2,3) show ?thesis
      by (auto simp: less_Suc_eq_0_disj)
  qed
qed

lemma re_search_None_D:
  "re_search d p s = None \<Longrightarrow> j \<le> length s \<Longrightarrow> re_match d p (drop j s) = None"
proof (induction s arbitrary: j)
  case Nil
  then show ?case by auto
next
  case (Cons c cs)
  then show ?case
    by (cases j) (auto split: option.splits)
qed

lemma re_search_SomeI:
  "re_match d p (drop b s) = Some n \<Longrightarrow> b \<le> length s \<Longrightarrow>
     (\<forall>j<b. re_match d p (drop j s) = None) \<Longrightarrow> re_search d p s = Some (b, b + n)"
proof (induction s arbitrary: b)
  case Nil
  then show ?case by simp
next
  case (Cons c cs)
  show ?case
  proof (cases b)
    case 0
    with Cons.prems show ?thesis by simp
  next
    case (Suc b')
    with Cons.prems have h0: "re_match d p (c # cs) = None" by auto
    from Cons.prems Suc have "\<forall>j<b'. re_match d p (drop j cs) = None" by auto
    with Cons.IH [of b'] Cons.prems Suc have "re_search d p cs = Some (b', b' + n)" by simp
    with h0 Suc show ?thesis by simp
  qed
qed


lemma pattern_match:
  "re_match True pattern s =
     (if prefix begin_marker s
      then map_option (\<lambda>k. length begin_marker + (k + length end_marker))
             (find_sub end_marker (drop (length begin_marker) s))
      else None)"
  by (simp add: pattern_def re_match_lit lazy_dotall_lit option.map_comp comp_def)

lemma pattern_match_SomeD:
  assumes "re_match True pattern s = Some n"
  shows "\<exists>body. take n s = begin_marker @ body @ end_marker \<and> n \<le> length s
           \<and> (\<forall>k<length body. \<not> prefix end_marker (drop k (body @ end_marker)))"
proof -
  from assms have pb: "prefix begin_marker s" by (simp add: pattern_match split: if_splits)
  then obtain t where s: "s = begin_marker @ t" by (auto simp: prefix_def)
  from assms pb s obtain k where k: "find_sub end_marker t = Some k"
    "n = length begin_marker + (k + length end_marker)"
    by (auto simp: pattern_match)
  from find_sub_Some_D [OF k(1)]
  have kl: "k \<le> length t" and pe: "prefix end_marker (drop k t)"
    and first: "\<forall>j<k. \<not> prefix end_marker (drop j t)" by auto
  from pe obtain u where u: "drop k t = end_marker @ u" by (auto simp: prefix_def)
  define body where "body = take k t"
  have t: "t = body @ end_marker @ u" using u by (metis append_take_drop_id body_def)
  have lk: "length body = k" using kl by (simp add: body_def)
  have s': "s = begin_marker @ body @ end_marker @ u" using s t by simp
  have tn: "take n s = begin_marker @ body @ end_marker"
    by (simp add: s' k(2) lk)
  have nl: "n \<le> length s" using assms by (rule re_match_le)
  have "\<not> prefix end_marker (drop j (body @ end_marker))" if "j < length body" for j
  proof
    assume p: "prefix end_marker (drop j (body @ end_marker))"
    from that lk have jk: "j < k" by simp
    have "drop j t = drop j (body @ end_marker) @ u"
      using that by (simp add: t)
    with p have "prefix end_marker (drop j t)" by (simp add: prefix_def) (metis append.assoc)
    with first jk show False by blast
  qed
  with tn nl show ?thesis by blast
qed



lemma pattern_match_I:
  "\<exists>n. re_match True pattern (begin_marker @ b @ end_marker @ c) = Some n"
proof -
  from find_sub_append [of b end_marker c]
  obtain k where "find_sub end_marker (b @ end_marker @ c) = Some k" by blast
  then show ?thesis by (simp add: pattern_match)
qed

lemma section_search_iff:
  "re_search True pattern s \<noteq> None \<longleftrightarrow> (\<exists>a b c. s = a @ begin_marker @ b @ end_marker @ c)"
proof
  assume "re_search True pattern s \<noteq> None"
  then obtain b e where m: "re_search True pattern s = Some (b, e)" by auto
  from re_search_Some_D [OF m]
  have be: "b \<le> e" "e \<le> length s" and mt: "re_match True pattern (drop b s) = Some (e - b)"
    by auto
  from pattern_match_SomeD [OF mt]
  obtain body where "take (e - b) (drop b s) = begin_marker @ body @ end_marker" by blast
  then have "s = take b s @ begin_marker @ body @ end_marker @ drop (e - b) (drop b s)"
    by (metis append.assoc append_take_drop_id)
  then show "\<exists>a b c. s = a @ begin_marker @ b @ end_marker @ c" by blast
next
  assume "\<exists>a b c. s = a @ begin_marker @ b @ end_marker @ c"
  then obtain a b c where s: "s = a @ begin_marker @ b @ end_marker @ c" by blast
  from pattern_match_I [of b c] obtain n
    where "re_match True pattern (begin_marker @ b @ end_marker @ c) = Some n" by blast
  then have nm: "re_match True pattern (drop (length a) s) \<noteq> None" by (simp add: s)
  have la: "length a \<le> length s" by (simp add: s)
  show "re_search True pattern s \<noteq> None"
  proof
    assume "re_search True pattern s = None"
    from re_search_None_D [OF this la] nm show False by simp
  qed
qed

lemma py_replace_Nil [simp]: "old \<noteq> [] \<Longrightarrow> py_replace old new [] = []"
  by (simp add: py_replace.simps)

lemma py_replace_first:
  "old \<noteq> [] \<Longrightarrow> (\<forall>j<length p. \<not> prefix old (drop j (p @ old @ r))) \<Longrightarrow>
     py_replace old new (p @ old @ r) = p @ new @ py_replace old new r"
proof (induction p)
  case Nil
  then show ?case by (subst py_replace.simps) simp
next
  case (Cons c p)
  from Cons.prems(2) have np: "\<not> prefix old (c # p @ old @ r)" by force
  from Cons.prems(2) have "\<forall>j<length p. \<not> prefix old (drop j (p @ old @ r))" by force
  with Cons.IH Cons.prems(1) have "py_replace old new (p @ old @ r) = p @ new @ py_replace old new r"
    by blast
  with np Cons.prems(1) show ?case by (subst py_replace.simps) simp
qed

lemma py_replace_same: "old \<noteq> [] \<Longrightarrow> py_replace old old s = s"
proof (induction "length s" arbitrary: s rule: less_induct)
  case less
  show ?case
  proof (cases "prefix old s")
    case True
    then obtain t where t: "s = old @ t" by (auto simp: prefix_def)
    with less.prems have "length t < length s" by simp
    with less.hyps less.prems have "py_replace old old t = t" by blast
    with True less.prems t show ?thesis by (subst py_replace.simps) simp
  next
    case False
    show ?thesis
    proof (cases s)
      case Nil
      with less.prems show ?thesis by simp
    next
      case (Cons c cs)
      with less.hyps less.prems have "py_replace old old cs = cs" by simp
      with False Cons less.prems show ?thesis by (subst py_replace.simps) simp
    qed
  qed
qed

lemma length_py_replace_le:
  "old \<noteq> [] \<Longrightarrow> length new \<le> length old \<Longrightarrow> length (py_replace old new s) \<le> length s"
proof (induction "length s" arbitrary: s rule: less_induct)
  case less
  show ?case
  proof (cases "prefix old s")
    case True
    then obtain t where t: "s = old @ t" by (auto simp: prefix_def)
    with less.prems have "length t < length s" by simp
    with less.hyps less.prems have "length (py_replace old new t) \<le> length t" by blast
    with True less.prems t show ?thesis by (subst py_replace.simps) simp
  next
    case False
    show ?thesis
    proof (cases s)
      case Nil
      with less.prems show ?thesis by simp
    next
      case (Cons c cs)
      with less.hyps less.prems have "length (py_replace old new cs) \<le> length cs" by simp
      with False Cons less.prems show ?thesis by (subst py_replace.simps) simp
    qed
  qed
qed

lemma py_replace_absent:
  "old \<noteq> [] \<Longrightarrow> (\<forall>j\<le>length s. \<not> prefix old (drop j s)) \<Longrightarrow> py_replace old new s = s"
proof (induction s)
  case Nil
  then show ?case by simp
next
  case (Cons c cs)
  from Cons.prems(2) have np: "\<not> prefix old (c # cs)" by force
  from Cons.prems(2) have "\<forall>j\<le>length cs. \<not> prefix old (drop j cs)" by force
  with Cons.IH Cons.prems(1) have "py_replace old new cs = cs" by blast
  with np Cons.prems(1) show ?case by (subst py_replace.simps) simp
qed

text \<open>What the section step does when the search succeeds.\<close>

lemma section_step_Some:
  assumes m: "re_search True pattern s = Some (b, e)"
  shows "\<exists>body. s = take b s @ begin_marker @ body @ end_marker @ drop e s
           \<and> group0 s (b, e) = begin_marker @ body @ end_marker
           \<and> (\<forall>k<length body. \<not> prefix end_marker (drop k (body @ end_marker)))
           \<and> replace_section s =
               take b s @ new_section @ py_replace (group0 s (b, e)) new_section (drop e s)"
proof -
  from re_search_Some_D [OF m]
  have be: "b \<le> e" "e \<le> length s" and mt: "re_match True pattern (drop b s) = Some (e - b)"
    and first: "\<forall>j<b. re_match True pattern (drop j s) = None"
    by auto
  from pattern_match_SomeD [OF mt]
  obtain body where body: "take (e - b) (drop b s) = begin_marker @ body @ end_marker"
    and shortest: "\<forall>k<length body. \<not> prefix end_marker (drop k (body @ end_marker))" by blast
  let ?sec = "begin_marker @ body @ end_marker"
  have g: "group0 s (b, e) = ?sec" using body by (simp add: group0_def)
  have "drop b s = ?sec @ drop (e - b) (drop b s)"
    using body by (metis append_take_drop_id)
  then have db: "drop b s = ?sec @ drop e s" using be by simp
  have s: "s = take b s @ ?sec @ drop e s"
    using db by (metis append_take_drop_id)
  have lb: "length (take b s) = b" using be by simp
  have ne: "?sec \<noteq> []" by (simp add: begin_marker_def)
  have nopre: "\<not> prefix ?sec (drop j (take b s @ ?sec @ drop e s))" if "j < length (take b s)" for j
  proof
    assume "prefix ?sec (drop j (take b s @ ?sec @ drop e s))"
    with s have "prefix ?sec (drop j s)" by simp
    then obtain u where "drop j s = begin_marker @ body @ end_marker @ u"
      by (auto simp: prefix_def)
    with pattern_match_I [of body u] have "re_match True pattern (drop j s) \<noteq> None" by auto
    with first that lb show False by simp
  qed
  have "py_replace ?sec new_section (take b s @ ?sec @ drop e s)
          = take b s @ new_section @ py_replace ?sec new_section (drop e s)"
    by (rule py_replace_first [OF ne]) (use nopre in blast)
  with s have "py_replace ?sec new_section s
          = take b s @ new_section @ py_replace ?sec new_section (drop e s)" by simp
  with m g have "replace_section s =
      take b s @ new_section @ py_replace (group0 s (b, e)) new_section (drop e s)"
    by (simp add: replace_section_def)
  with s g shortest show ?thesis by (metis append.assoc)
qed



lemma stub_match:
  "re_match True pattern (new_section @ r) = Some (length new_section)"
proof -
  have "find_sub end_marker ([NL, TAB, TAB] @ end_marker @ r) = Some 3"
    by (simp add: end_marker_def NL_def TAB_def)
  then show ?thesis
    by (simp add: pattern_match new_section_def)
qed

lemma begin_earlier_matches:
  assumes q: "q \<noteq> []" and p: "prefix begin_marker (q @ begin_marker @ x)"
  shows "\<exists>n. re_match True pattern (q @ begin_marker @ body @ end_marker @ rest) = Some n"
proof -
  let ?n = "length begin_marker"
  from p obtain zs where eq: "q @ begin_marker @ x = begin_marker @ zs"
    by (auto simp: prefix_def)
  have "take ?n (q @ begin_marker @ x) = take ?n (begin_marker @ zs)"
    using eq by (rule arg_cong)
  also have "\<dots> = begin_marker" by simp
  finally have "take ?n (q @ begin_marker @ x) = begin_marker" .
  moreover have "take ?n (q @ begin_marker @ x) = take ?n (q @ begin_marker)"
    by simp
  ultimately have tk: "take ?n (q @ begin_marker) = begin_marker" by simp
  define y where "y = drop ?n (q @ begin_marker)"
  have "q @ begin_marker = begin_marker @ y"
    using tk by (metis append_take_drop_id y_def)
  then have eq2: "q @ begin_marker @ body @ end_marker @ rest
               = begin_marker @ (y @ body) @ end_marker @ rest"
    by (metis append.assoc)
  show ?thesis unfolding eq2 by (rule pattern_match_I)
qed

lemma stub_search:
  assumes m: "re_search True pattern s = Some (b, e)"
  shows "re_search True pattern (replace_section s) = Some (b, b + length new_section)
           \<and> group0 (replace_section s) (b, b + length new_section) = new_section"
proof -
  from re_search_Some_D [OF m]
  have be: "b \<le> e" "e \<le> length s"
    and first: "\<forall>j<b. re_match True pattern (drop j s) = None"
    by auto
  from section_step_Some [OF m]
  obtain body where s: "s = take b s @ begin_marker @ body @ end_marker @ drop e s"
    and rs: "replace_section s =
               take b s @ new_section @ py_replace (group0 s (b, e)) new_section (drop e s)"
    by blast
  define p where "p = take b s"
  define r' where "r' = py_replace (group0 s (b, e)) new_section (drop e s)"
  have lp: "length p = b" using be by (simp add: p_def)
  have rs': "replace_section s = p @ new_section @ r'" using rs by (simp add: p_def r'_def)
  have s': "s = p @ begin_marker @ body @ end_marker @ drop e s" using s by (simp add: p_def)
  have at_b: "re_match True pattern (drop b (replace_section s)) = Some (length new_section)"
    by (simp add: rs' lp stub_match)
  have before: "re_match True pattern (drop j (replace_section s)) = None" if "j < b" for j
  proof (rule ccontr)
    assume "re_match True pattern (drop j (replace_section s)) \<noteq> None"
    then have "prefix begin_marker (drop j (replace_section s))"
      by (auto simp: pattern_match split: if_splits)
    with that lp have pb: "prefix begin_marker
        (drop j p @ begin_marker @ ([NL, TAB, TAB] @ end_marker @ r'))"
      by (simp add: rs' new_section_def)
    have q: "drop j p \<noteq> []" using that lp by simp
    from begin_earlier_matches [OF q pb, of body "drop e s"]
    obtain n where "re_match True pattern
        (drop j p @ begin_marker @ body @ end_marker @ drop e s) = Some n" by blast
    moreover have "drop j s = drop j p @ begin_marker @ body @ end_marker @ drop e s"
      by (subst s') (use that lp in simp)
    ultimately have "re_match True pattern (drop j s) \<noteq> None" by simp
    with first that show False by simp
  qed
  have bl: "b \<le> length (replace_section s)" by (simp add: rs' lp)
  have sr: "re_search True pattern (replace_section s) = Some (b, b + length new_section)"
    by (rule re_search_SomeI [OF at_b bl]) (use before in blast)
  have "group0 (replace_section s) (b, b + length new_section) = new_section"
    by (simp add: group0_def rs' lp)
  with sr show ?thesis by simp
qed

lemma replace_section_idem: "replace_section (replace_section s) = replace_section s"
proof (cases "re_search True pattern s")
  case None
  then show ?thesis by (simp add: replace_section_def)
next
  case (Some m)
  obtain b e where "m = (b, e)" by (cases m)
  with Some have m: "re_search True pattern s = Some (b, e)" by simp
  from stub_search [OF m]
  have "replace_section (replace_section s)
          = py_replace new_section new_section (replace_section s)"
    by (simp add: replace_section_def [of "replace_section s"])
  also have "\<dots> = replace_section s"
    by (rule py_replace_same) (simp add: new_section_def)
  finally show ?thesis .
qed



lemma length_re_sub_le: "length (re_sub d p [] s) \<le> length s"
proof (induction d p "[] :: string" s rule: re_sub.induct)
  case (1 d p)
  show ?case by (simp split: option.splits)
next
  case (2 d p c cs)
  show ?case
  proof (cases "re_match d p (c # cs)")
    case None
    with 2 show ?thesis by simp
  next
    case (Some n)
    with 2 show ?thesis
      by (cases "n = 0") (auto intro: le_trans)
  qed
qed


lemma nl_local_step:
  assumes nf: "\<not> atom_ok False (item_atom i) NL"
    and np: "\<forall>x. i \<noteq> GreedyPlus x"
    and Q: "\<And>a b. NL \<notin> set a \<Longrightarrow>
              re_match False (r @ [Once (Lit NL)]) (a @ NL # b)
                = re_match False (r @ [Once (Lit NL)]) (a @ [NL])"
  shows "NL \<notin> set a \<Longrightarrow>
           re_match False ((i # r) @ [Once (Lit NL)]) (a @ NL # b)
             = re_match False ((i # r) @ [Once (Lit NL)]) (a @ [NL])"
proof (induction a)
  case Nil
  from Q [of "[]" b] have q0: "re_match False (r @ [Once (Lit NL)]) (NL # b)
                = re_match False (r @ [Once (Lit NL)]) [NL]" by simp
  from nf show ?case by (cases i) (simp_all add: q0)
next
  case (Cons c cs)
  then have ih: "re_match False (i # r @ [Once (Lit NL)]) (cs @ NL # b)
             = re_match False (i # r @ [Once (Lit NL)]) (cs @ [NL])" by simp
  from Cons.prems Q [of "c # cs" b] have q1: "re_match False (r @ [Once (Lit NL)]) (c # cs @ NL # b)
                = re_match False (r @ [Once (Lit NL)]) (c # cs @ [NL])" by simp
  from Cons.prems Q [of cs b] have q2: "re_match False (r @ [Once (Lit NL)]) (cs @ NL # b)
                = re_match False (r @ [Once (Lit NL)]) (cs @ [NL])" by simp
  show ?case
  proof (cases i)
    case (Once x)
    then show ?thesis by (simp add: q2)
  next
    case (LazyStar x)
    with ih show ?thesis by (simp add: q1 split: option.splits)
  next
    case (GreedyStar x)
    with ih show ?thesis by (simp add: q1 split: option.splits)
  next
    case (GreedyPlus x)
    with np show ?thesis by simp
  next
    case (GreedyOpt x)
    then show ?thesis by (simp add: q1 q2 split: option.splits)
  qed
qed

lemma nl_local_plus:
  assumes nf: "\<not> atom_ok False x NL"
    and Q: "\<And>a b. NL \<notin> set a \<Longrightarrow>
              re_match False (r @ [Once (Lit NL)]) (a @ NL # b)
                = re_match False (r @ [Once (Lit NL)]) (a @ [NL])"
    and a: "NL \<notin> set a"
  shows "re_match False ((GreedyPlus x # r) @ [Once (Lit NL)]) (a @ NL # b)
             = re_match False ((GreedyPlus x # r) @ [Once (Lit NL)]) (a @ [NL])"
proof (cases a)
  case Nil
  with nf show ?thesis by simp
next
  case (Cons c cs)
  with a have "NL \<notin> set cs" by simp
  from nl_local_step [of "GreedyStar x" r cs b, OF _ _ Q this] nf
  have "re_match False (GreedyStar x # r @ [Once (Lit NL)]) (cs @ NL # b)
          = re_match False (GreedyStar x # r @ [Once (Lit NL)]) (cs @ [NL])" by simp
  with Cons show ?thesis by simp
qed

lemma nl_local:
  "nl_free p \<Longrightarrow> NL \<notin> set a \<Longrightarrow>
     re_match False (p @ [Once (Lit NL)]) (a @ NL # b)
       = re_match False (p @ [Once (Lit NL)]) (a @ [NL])"
proof (induction p arbitrary: a b)
  case Nil
  then show ?case by (cases a) simp_all
next
  case (Cons i r)
  from Cons.prems(1) have nf: "\<not> atom_ok False (item_atom i) NL" and fr: "nl_free r"
    by (simp_all add: nl_free_def)
  show ?case
  proof (cases "\<exists>x. i = GreedyPlus x")
    case True
    then obtain x where i: "i = GreedyPlus x" by blast
    with nf have nfx: "\<not> atom_ok False x NL" by simp
    show ?thesis unfolding i
      by (rule nl_local_plus [OF nfx Cons.IH [OF fr] Cons.prems(2)])
  next
    case False
    then have np: "\<forall>x. i \<noteq> GreedyPlus x" by blast
    show ?thesis
      by (rule nl_local_step [OF nf np Cons.IH [OF fr] Cons.prems(2)])
  qed
qed

text \<open>A match of such a pattern ends right behind the first newline.\<close>

lemma nl_match_end_step:
  assumes nf: "\<not> atom_ok False (item_atom i) NL"
    and np: "\<forall>x. i \<noteq> GreedyPlus x"
    and Q: "\<And>a. NL \<notin> set a \<Longrightarrow>
              re_match False (r @ [Once (Lit NL)]) (a @ [NL]) \<in> {None, Some (Suc (length a))}"
  shows "NL \<notin> set a \<Longrightarrow>
           re_match False ((i # r) @ [Once (Lit NL)]) (a @ [NL]) \<in> {None, Some (Suc (length a))}"
proof (induction a)
  case Nil
  from Q [of "[]"] have q0: "re_match False (r @ [Once (Lit NL)]) [NL] \<in> {None, Some (Suc 0)}"
    by simp
  from nf q0 show ?case by (cases i) (auto split: option.splits)
next
  case (Cons c cs)
  then have ih: "re_match False (i # r @ [Once (Lit NL)]) (cs @ [NL])
       \<in> {None, Some (Suc (length cs))}" by simp
  from Cons.prems Q [of "c # cs"] have q1: "re_match False (r @ [Once (Lit NL)]) (c # cs @ [NL])
       \<in> {None, Some (Suc (Suc (length cs)))}" by simp
  from Cons.prems Q [of cs] have q2: "re_match False (r @ [Once (Lit NL)]) (cs @ [NL])
       \<in> {None, Some (Suc (length cs))}" by simp
  show ?case
  proof (cases i)
    case (Once x)
    with q2 show ?thesis by auto
  next
    case (LazyStar x)
    with ih q1 show ?thesis by (auto split: option.splits)
  next
    case (GreedyStar x)
    with ih q1 show ?thesis by (auto split: option.splits)
  next
    case (GreedyPlus x)
    with np show ?thesis by simp
  next
    case (GreedyOpt x)
    with q1 q2 show ?thesis by (auto split: option.splits)
  qed
qed

lemma nl_match_end_aux:
  "nl_free p \<Longrightarrow> NL \<notin> set a \<Longrightarrow>
     re_match False (p @ [Once (Lit NL)]) (a @ [NL]) \<in> {None, Some (Suc (length a))}"
proof (induction p arbitrary: a)
  case Nil
  then show ?case by (cases a) auto
next
  case (Cons i r)
  from Cons.prems(1) have nf: "\<not> atom_ok False (item_atom i) NL" and fr: "nl_free r"
    by (simp_all add: nl_free_def)
  show ?case
  proof (cases "\<exists>x. i = GreedyPlus x")
    case True
    then obtain x where i: "i = GreedyPlus x" by blast
    with nf have nfx: "\<not> atom_ok False x NL" by simp
    show ?thesis
    proof (cases a)
      case Nil
      with nfx show ?thesis by (simp add: i)
    next
      case (Cons c cs)
      with \<open>NL \<notin> set a\<close> have cs: "NL \<notin> set cs" by simp
      from nl_match_end_step [of "GreedyStar x" r cs, OF _ _ Cons.IH [OF fr] cs] nfx
      have "re_match False (GreedyStar x # r @ [Once (Lit NL)]) (cs @ [NL])
              \<in> {None, Some (Suc (length cs))}" by simp
      with Cons show ?thesis by (auto simp: i)
    qed
  next
    case False
    then have np: "\<forall>x. i \<noteq> GreedyPlus x" by blast
    show ?thesis
      by (rule nl_match_end_step [OF nf np Cons.IH [OF fr] Cons.prems(2)])
  qed
qed

lemma nl_match_end:
  "nl_free p \<Longrightarrow> NL \<notin> set a \<Longrightarrow>
     re_match False (p @ [Once (Lit NL)]) (a @ [NL]) = Some n \<Longrightarrow> n = Suc (length a)"
  using nl_match_end_aux [of p a] by auto





lemma re_sub_Nil [simp]: "re_sub d p [] [] = []"
  by (simp split: option.splits)

lemma re_sub_skip: "re_match d p (c # cs) = None \<Longrightarrow> re_sub d p repl (c # cs) = c # re_sub d p repl cs"
  by simp

lemma re_sub_take:
  "re_match d p s = Some n \<Longrightarrow> n \<noteq> 0 \<Longrightarrow> re_sub d p repl s = repl @ re_sub d p repl (drop n s)"
proof (cases s)
  case Nil
  assume "re_match d p s = Some n" "n \<noteq> 0"
  with Nil re_match_le [of d p s n] show ?thesis by simp
next
  case (Cons c cs)
  assume "re_match d p s = Some n" "n \<noteq> 0"
  with Cons show ?thesis by (cases n) simp_all
qed

lemma split_first_newline:
  assumes "pre \<noteq> []" "last pre = NL"
  obtains a rest where "pre = a @ NL # rest" "NL \<notin> set a" "rest = [] \<or> last rest = NL"
proof -
  define a where "a = takeWhile (\<lambda>c. c \<noteq> NL) pre"
  define rest where "rest = tl (dropWhile (\<lambda>c. c \<noteq> NL) pre)"
  from assms have "NL \<in> set pre" by (metis last_in_set)
  then have dw: "dropWhile (\<lambda>c. c \<noteq> NL) pre \<noteq> []" by (simp add: dropWhile_eq_Nil_conv)
  then have "hd (dropWhile (\<lambda>c. c \<noteq> NL) pre) = NL"
    using hd_dropWhile [of "\<lambda>c. c \<noteq> NL" pre] by simp
  with dw have d: "dropWhile (\<lambda>c. c \<noteq> NL) pre = NL # rest"
    by (cases "dropWhile (\<lambda>c. c \<noteq> NL) pre") (simp_all add: rest_def)
  have p: "pre = a @ NL # rest"
    using takeWhile_dropWhile_id [of "\<lambda>c. c \<noteq> NL" pre] by (simp add: a_def d)
  have na: "NL \<notin> set a" by (auto simp: a_def dest: set_takeWhileD)
  have "rest = [] \<or> last rest = NL"
    using assms(2) by (subst (asm) p) (auto split: if_splits)
  with p na show ?thesis by (rule that)
qed

lemma re_sub_line_split:
  assumes fr: "nl_free p"
  shows "pre = [] \<or> last pre = NL \<Longrightarrow>
    re_sub False (p @ [Once (Lit NL)]) [] (pre @ post)
      = re_sub False (p @ [Once (Lit NL)]) [] pre @ re_sub False (p @ [Once (Lit NL)]) [] post"
proof (induction "length pre" arbitrary: pre rule: less_induct)
  case less
  let ?P = "p @ [Once (Lit NL)]"
  show ?case
  proof (cases pre)
    case Nil
    then show ?thesis by (simp split: option.splits)
  next
    case (Cons c cs)
    with less.prems have lp: "last pre = NL" and ne: "pre \<noteq> []" by auto
    from split_first_newline [OF ne lp]
    obtain a rest where pre: "pre = a @ NL # rest" and na: "NL \<notin> set a"
      and rest: "rest = [] \<or> last rest = NL" by blast
    have m1: "re_match False ?P (pre @ post) = re_match False ?P (a @ [NL])"
      using nl_local [OF fr na, of "rest @ post"] by (simp add: pre)
    have m2: "re_match False ?P pre = re_match False ?P (a @ [NL])"
      using nl_local [OF fr na, of rest] by (simp add: pre)
    show ?thesis
    proof (cases "re_match False ?P (a @ [NL])")
      case None
      have cs: "cs = [] \<or> last cs = NL" using lp Cons by (auto split: if_splits)
      have "length cs < length pre" using Cons by simp
      from less.hyps [OF this cs]
      have "re_sub False ?P [] (cs @ post) = re_sub False ?P [] cs @ re_sub False ?P [] post" .
      moreover from None m1 Cons have "re_match False ?P (c # cs @ post) = None" by simp
      moreover from None m2 Cons have "re_match False ?P (c # cs) = None" by simp
      ultimately show ?thesis by (simp add: Cons)
    next
      case (Some n)
      from nl_match_end [OF fr na Some] have n: "n = Suc (length a)" .
      have d1: "drop n (pre @ post) = rest @ post" by (simp add: pre n)
      have d2: "drop n pre = rest" by (simp add: pre n)
      have "length rest < length pre" by (simp add: pre)
      from less.hyps [OF this rest]
      have ih: "re_sub False ?P [] (rest @ post)
                  = re_sub False ?P [] rest @ re_sub False ?P [] post" .
      have m1': "re_match False ?P (pre @ post) = Some n" using Some m1 by simp
      have m2': "re_match False ?P pre = Some n" using Some m2 by simp
      have nz: "n \<noteq> 0" using n by simp
      have "re_sub False ?P [] (pre @ post) = [] @ re_sub False ?P [] (drop n (pre @ post))"
        by (rule re_sub_take [OF m1' nz])
      then have "re_sub False ?P [] (pre @ post) = re_sub False ?P [] (rest @ post)"
        by (simp only: d1 append_Nil)
      moreover have "re_sub False ?P [] pre = [] @ re_sub False ?P [] (drop n pre)"
        by (rule re_sub_take [OF m2' nz])
      then have "re_sub False ?P [] pre = re_sub False ?P [] rest"
        by (simp only: d2 append_Nil)
      ultimately show ?thesis using ih by simp
    qed
  qed
qed

lemma lazy_dot_newline:
  "NL \<notin> set rest \<Longrightarrow>
     re_match False (LazyStar Dot # lit [NL]) (rest @ NL # post) = Some (Suc (length rest))"
  by (induction rest) (auto simp: lit_def)

lemma greedy_star_run:
  "\<forall>c\<in>set h. atom_ok d x c \<Longrightarrow> t = [] \<or> \<not> atom_ok d x (hd t) \<Longrightarrow> re_match d r t = Some n \<Longrightarrow>
     re_match d (GreedyStar x # r) (h @ t) = Some (length h + n)"
proof (induction h)
  case Nil
  then show ?case by (cases t) auto
next
  case (Cons c h)
  then show ?case by simp
qed

lemma hex_class_ok: "c \<in> set ''0123456789ABCDEF'' \<Longrightarrow> atom_ok d hex_class c"
  by (auto simp: hex_class_def)

lemma fixed_id_pattern_split:
  "fixed_id_pattern = (lit tabs4 @ lit fixed_id @ [LazyStar Dot]) @ [Once (Lit NL)]"
  by (simp add: fixed_id_pattern_def lit_def)

lemma fixed_id_nl_free: "nl_free (lit tabs4 @ lit fixed_id @ [LazyStar Dot])"
  by (simp add: nl_free_def lit_def tabs4_def fixed_id_def NL_def TAB_def)

lemma fixed_id_line_match:
  "NL \<notin> set rest \<Longrightarrow>
     re_match False fixed_id_pattern (tabs4 @ fixed_id @ rest @ NL # post)
       = Some (length (tabs4 @ fixed_id @ rest @ [NL]))"
  by (simp add: fixed_id_pattern_def re_match_lit lazy_dot_newline)



lemma phase_ref_pattern_split:
  "phase_ref_pattern =
     (lit tabs4 @ [GreedyPlus hex_class] @ lit phase_comment @ [GreedyOpt (Lit (CHR '',''))])
       @ [Once (Lit NL)]"
  by (simp add: phase_ref_pattern_def lit_def)

lemma phase_ref_nl_free:
  "nl_free (lit tabs4 @ [GreedyPlus hex_class] @ lit phase_comment @ [GreedyOpt (Lit (CHR '',''))])"
  by (simp add: nl_free_def lit_def tabs4_def phase_comment_def hex_class_def NL_def TAB_def)

lemma lit_single: "lit [c] = [Once (Lit c)]"
  by (simp add: lit_def)

lemma phase_tail_match:
  "comma = [] \<or> comma = '',''
    \<Longrightarrow> re_match False (lit phase_comment @ [GreedyOpt (Lit (CHR '',''))] @ lit [NL])
          (phase_comment @ comma @ NL # post) = Some (length (phase_comment @ comma @ [NL]))"
  by (auto simp: re_match_lit lit_single NL_def)

lemma phase_line_match:
  assumes h: "h \<noteq> []" "set h \<subseteq> set ''0123456789ABCDEF''"
    and comma: "comma = [] \<or> comma = '',''"
  shows "re_match False phase_ref_pattern (tabs4 @ h @ phase_comment @ comma @ NL # post)
           = Some (length (tabs4 @ h @ phase_comment @ comma @ [NL]))"
proof -
  let ?x = "hex_class"
  let ?r = "lit phase_comment @ [GreedyOpt (Lit (CHR '',''))] @ lit [NL]"
  let ?t = "phase_comment @ comma @ NL # post"
  from h obtain c h' where hc: "h = c # h'" by (cases h) auto
  have ok: "\<forall>c\<in>set h. atom_ok False ?x c"
    using h(2) hex_class_ok [of _ False] by blast
  have t: "?t = [] \<or> \<not> atom_ok False ?x (hd ?t)"
    by (simp add: phase_comment_def hex_class_def)
  have "re_match False (GreedyStar ?x # ?r) (h' @ ?t) = Some (length h' + length (phase_comment @ comma @ [NL]))"
    by (rule greedy_star_run [OF _ t phase_tail_match [OF comma]]) (use ok hc in simp)
  with ok hc have "re_match False (GreedyPlus ?x # ?r) (h @ ?t)
      = Some (length h + length (phase_comment @ comma @ [NL]))" by simp
  then show ?thesis
    by (simp add: phase_ref_pattern_def re_match_lit)
qed

lemma strip_fixed_id_line:
  assumes "pre = [] \<or> last pre = NL" "NL \<notin> set rest"
  shows "strip_fixed_id (pre @ tabs4 @ fixed_id @ rest @ [NL] @ post)
           = strip_fixed_id pre @ strip_fixed_id post"
proof -
  let ?line = "tabs4 @ fixed_id @ rest @ [NL]"
  let ?B = "lit tabs4 @ lit fixed_id @ [LazyStar Dot]"
  have m: "re_match False fixed_id_pattern (?line @ []) = Some (length ?line)"
    using fixed_id_line_match [OF assms(2), of "[]"] by simp
  have "re_sub False fixed_id_pattern [] ?line = [] @ re_sub False fixed_id_pattern [] (drop (length ?line) ?line)"
    by (rule re_sub_take) (use m in simp_all)
  then have l: "strip_fixed_id ?line = []" by (simp add: strip_fixed_id_def split: option.splits)
  have s1: "strip_fixed_id (pre @ (?line @ post)) = strip_fixed_id pre @ strip_fixed_id (?line @ post)"
    unfolding strip_fixed_id_def fixed_id_pattern_split
    by (rule re_sub_line_split [OF fixed_id_nl_free assms(1)])
  have s2: "strip_fixed_id (?line @ post) = strip_fixed_id ?line @ strip_fixed_id post"
    unfolding strip_fixed_id_def fixed_id_pattern_split
    by (rule re_sub_line_split [OF fixed_id_nl_free]) simp
  from s1 s2 l show ?thesis by simp
qed

lemma strip_phase_refs_line:
  assumes "pre = [] \<or> last pre = NL" "h \<noteq> []" "set h \<subseteq> set ''0123456789ABCDEF''"
    "comma = [] \<or> comma = '',''"
  shows "strip_phase_refs (pre @ tabs4 @ h @ phase_comment @ comma @ [NL] @ post)
           = strip_phase_refs pre @ strip_phase_refs post"
proof -
  let ?line = "tabs4 @ h @ phase_comment @ comma @ [NL]"
  have m: "re_match False phase_ref_pattern (?line @ []) = Some (length ?line)"
    using phase_line_match [OF assms(2,3,4), of "[]"] by simp
  have "re_sub False phase_ref_pattern [] ?line = [] @ re_sub False phase_ref_pattern [] (drop (length ?line) ?line)"
    by (rule re_sub_take) (use m in simp_all)
  then have l: "strip_phase_refs ?line = []" by (simp add: strip_phase_refs_def split: option.splits)
  have s1: "strip_phase_refs (pre @ (?line @ post)) = strip_phase_refs pre @ strip_phase_refs (?line @ post)"
    unfolding strip_phase_refs_def phase_ref_pattern_split
    by (rule re_sub_line_split [OF phase_ref_nl_free assms(1)])
  have s2: "strip_phase_refs (?line @ post) = strip_phase_refs ?line @ strip_phase_refs post"
    unfolding strip_phase_refs_def phase_ref_pattern_split
    by (rule re_sub_line_split [OF phase_ref_nl_free]) simp
  from s1 s2 l show ?thesis by simp
qed

subsection \<open>Facts for the claims about the section step\<close>

lemma occurrences_iff:
  "j \<in> set (occurrences w s) \<longleftrightarrow> j \<le> length s \<and> prefix w (drop j s)"
proof (induction s arbitrary: j)
  case Nil
  show ?case by auto
next
  case (Cons c cs)
  show ?case
  proof (cases j)
    case 0
    then show ?thesis by auto
  next
    case (Suc k)
    with Cons [of k] show ?thesis by auto
  qed
qed

lemma example_output: "transform example_input = new_section"
  by code_simp

lemma section_step_leftmost:
  assumes m: "re_search True pattern t = Some (b, e)"
    and t: "t = a @ begin_marker @ x @ end_marker @ c"
  shows "b \<le> length a"
proof (rule ccontr)
  assume "\<not> b \<le> length a"
  then have "length a < b" by simp
  with re_search_Some_D [OF m] have "re_match True pattern (drop (length a) t) = None" by blast
  moreover from pattern_match_I [of x c] have "re_match True pattern (drop (length a) t) \<noteq> None"
    by (auto simp: t)
  ultimately show False by simp
qed

lemma length_transform_le: "length (transform t) \<le> length (replace_section t)"
  unfolding transform_def strip_fixed_id_def strip_phase_refs_def
  by (rule le_trans [OF length_re_sub_le length_re_sub_le])

lemma single_block_search:
  assumes ob: "occurrences begin_marker t = [i]"
    and oe: "occurrences end_marker t = [k]"
    and ik: "i + length begin_marker \<le> k"
  shows "re_search True pattern t = Some (i, k + length end_marker)"
proof -
  let ?B = "length begin_marker"
  from ob occurrences_iff [of _ begin_marker t]
  have bi: "i \<le> length t" "prefix begin_marker (drop i t)"
    and bonly: "\<And>j. j \<le> length t \<Longrightarrow> prefix begin_marker (drop j t) \<Longrightarrow> j = i"
    by auto
  from oe occurrences_iff [of _ end_marker t]
  have ek: "k \<le> length t" "prefix end_marker (drop k t)"
    and eonly: "\<And>j. j \<le> length t \<Longrightarrow> prefix end_marker (drop j t) \<Longrightarrow> j = k"
    by auto
  define u where "u = drop (i + ?B) t"
  define d where "d = k - (i + ?B)"
  have kd: "k = d + (i + ?B)" using ik by (simp add: d_def)
  have "prefix end_marker (drop d u)" using ek(2) by (simp add: u_def kd add.commute)
  moreover have "d \<le> length u" using ek(1) by (simp add: u_def d_def)
  ultimately obtain k' where k': "k' \<le> d" "find_sub end_marker u = Some k'"
    using find_sub_prefix_at by blast
  from find_sub_Some_D [OF k'(2)] have "prefix end_marker (drop k' u)" "k' \<le> length u" by auto
  then have "prefix end_marker (drop (k' + (i + ?B)) t)" "k' + (i + ?B) \<le> length t"
    using ik ek(1) by (simp_all add: u_def)
  from eonly [OF this(2,1)] kd have "k' = d" by simp
  with k'(2) have fs: "find_sub end_marker (drop ?B (drop i t)) = Some d"
    by (simp add: u_def add.commute)
  have at_i: "re_match True pattern (drop i t) = Some (?B + (d + length end_marker))"
    using bi(2) fs by (simp add: pattern_match)
  have before: "\<forall>j<i. re_match True pattern (drop j t) = None"
  proof (intro allI impI)
    fix j assume "j < i"
    with bi(1) bonly [of j] have "\<not> prefix begin_marker (drop j t)" by auto
    then show "re_match True pattern (drop j t) = None" by (simp add: pattern_match)
  qed
  from re_search_SomeI [OF at_i bi(1) before] kd show ?thesis by (simp add: add.commute add.left_commute)
qed

lemma length_replace_section:
  assumes m: "re_search True pattern t = Some (b, e)"
    and long: "length new_section \<le> e - b"
  shows "length (replace_section t) + (e - b) \<le> length t + length new_section"
proof -
  from re_search_Some_D [OF m] have be: "b \<le> e" "e \<le> length t" by auto
  from section_step_Some [OF m]
  obtain body where g: "group0 t (b, e) = begin_marker @ body @ end_marker"
    and rs: "replace_section t =
       take b t @ new_section @ py_replace (group0 t (b, e)) new_section (drop e t)"
    by blast
  have ne: "group0 t (b, e) \<noteq> []" by (simp add: g begin_marker_def)
  have lg: "length (group0 t (b, e)) = e - b" using be by (simp add: group0_def)
  have "length (py_replace (group0 t (b, e)) new_section (drop e t)) \<le> length (drop e t)"
    by (rule length_py_replace_le [OF ne]) (use long lg in simp)
  then have "length (replace_section t) \<le> b + length new_section + (length t - e)"
    using be by (simp add: rs)
  with be show ?thesis by simp
qed

lemma framed_search: "re_search True pattern framed_input = Some (2, 93)"
  by code_simp

lemma framed_no_repeat:
  "occurrences (group0 framed_input (2, 93)) (drop 93 framed_input) = []"
  by code_simp

subsection \<open>The script on the file system\<close>

lemma backup_file_neq: "backup_file \<noteq> project_file"
  by (simp add: backup_file_def)

lemma read_and_transform_Inr:
  "read_and_transform cd w = Inr (content, w1) \<longleftrightarrow>
     (\<exists>bytes t. files w project_file = Some bytes \<and> decode cd bytes = Some t
        \<and> content = transform t
        \<and> w1 = w\<lparr>stdout := stdout w @
             [Reading_project_file, Original_file_size (length t),
              (case re_search True pattern t of
                 Some m \<Rightarrow> Removed_shell_scripts | None \<Rightarrow> No_section_found),
              Modified_file_size (length (transform t))]\<rparr>)"
  by (auto simp: read_and_transform_def read_text_def py_print_def Let_def transform_def
           replace_section_def strip_phase_refs_def strip_fixed_id_def
           split: option.splits)

lemma backup_step_Inr:
  "backup_step w = Inr w2 \<longleftrightarrow>
     (\<exists>bytes. files w project_file = Some bytes
        \<and> w2 = w\<lparr>files := (files w)(backup_file \<mapsto> bytes),
                  stdout := stdout w @ [Created_backup backup_file]\<rparr>)"
  by (auto simp: backup_step_def shutil_copy_def py_print_def split: option.splits)

lemma write_step_Inr:
  "write_step cd content w = Inr w' \<longleftrightarrow>
     (\<exists>out. encode cd content = Some out
        \<and> w' = w\<lparr>files := (files w)(project_file \<mapsto> out),
                  stdout := stdout w @ [Updated_successfully, Next_steps]\<rparr>)"
  by (auto simp: write_step_def write_text_def py_print_def split: option.splits)

lemma run_script_Inr:
  "run_script cd w = Inr w' \<longleftrightarrow>
     (\<exists>content w1 w2. read_and_transform cd w = Inr (content, w1)
        \<and> backup_step w1 = Inr w2 \<and> write_step cd content w2 = Inr w')"
  by (auto simp: run_script_def split: sum.splits)

lemma run_script_success:
  assumes "files w project_file = Some bytes" "decode cd bytes = Some t"
    "encode cd (transform t) = Some out"
  shows "run_script cd w =
     Inr (w\<lparr>files := (files w)(backup_file \<mapsto> bytes, project_file \<mapsto> out),
            stdout := stdout w @
             [Reading_project_file, Original_file_size (length t),
              (case re_search True pattern t of
                 Some m \<Rightarrow> Removed_shell_scripts | None \<Rightarrow> No_section_found),
              Modified_file_size (length (transform t)),
              Created_backup backup_file, Updated_successfully, Next_steps]\<rparr>)"
proof -
  define w1 where "w1 = w\<lparr>stdout := stdout w @
             [Reading_project_file, Original_file_size (length t),
              (case re_search True pattern t of
                 Some m \<Rightarrow> Removed_shell_scripts | None \<Rightarrow> No_section_found),
              Modified_file_size (length (transform t))]\<rparr>"
  define w2 where "w2 = w1\<lparr>files := (files w1)(backup_file \<mapsto> bytes),
                  stdout := stdout w1 @ [Created_backup backup_file]\<rparr>"
  have r: "read_and_transform cd w = Inr (transform t, w1)"
    using assms(1,2) by (simp add: read_and_transform_Inr w1_def)
  have b: "backup_step w1 = Inr w2"
    using assms(1) by (simp add: backup_step_Inr w1_def w2_def)
  have wr: "write_step cd (transform t) w2 =
      Inr (w2\<lparr>files := (files w2)(project_file \<mapsto> out),
                  stdout := stdout w2 @ [Updated_successfully, Next_steps]\<rparr>)"
    using assms(3) by (simp add: write_step_Inr)
  show ?thesis
    by (simp add: run_script_def r b wr) (simp add: w1_def w2_def)
qed

lemma world0_run: "\<exists>w'. run_script codec0 world0 = Inr w'"
proof -
  have "files world0 project_file = Some example_input"
    using backup_file_neq by (simp add: world0_def)
  moreover have "decode codec0 example_input = Some example_input"
    "encode codec0 (transform example_input) = Some (transform example_input)"
    by (simp_all add: codec0_def)
  ultimately show ?thesis using run_script_success by blast
qed

lemma stub_output: "transform new_section = new_section"
  by code_simp

lemma no_section_search: "re_search True pattern no_section_input = None"
  by code_simp

lemma no_section_output: "transform no_section_input = ''keep'' @ [NL]"
  by code_simp

subsection \<open>Facts for the claims about the line substitutions\<close>

lemma line_patterns_nonempty:
  "re_match False phase_ref_pattern s \<noteq> Some 0" "re_match False fixed_id_pattern s \<noteq> Some 0"
  by (auto simp: phase_ref_pattern_def fixed_id_pattern_def re_match_lit tabs4_def)

lemma id_lines_before: "strip_phase_refs (replace_section id_lines_input) = id_lines_input"
  by code_simp

lemma strip_fixed_id_plain:
  "strip_fixed_id (''keep'' @ [NL]) = ''keep'' @ [NL]" "strip_fixed_id (''more'' @ [NL]) = ''more'' @ [NL]"
  by code_simp+

lemma phase_lines_before: "replace_section phase_lines_input = phase_lines_input"
  by code_simp

lemma strip_plain:
  "strip_phase_refs (''keep'' @ [NL]) = ''keep'' @ [NL]" "strip_phase_refs (''more'' @ [NL]) = ''more'' @ [NL]"
  "strip_fixed_id ((''keep'' @ [NL]) @ (''more'' @ [NL])) = (''keep'' @ [NL]) @ (''more'' @ [NL])"
  by code_simp+


text \<open>A completed run, phase by phase.\<close>

lemma run_script_phases:
  assumes "run_script cd w = Inr w'"
  shows "\<exists>orig t content w1 w2.
           files w project_file = Some orig \<and> decode cd orig = Some t
         \<and> read_and_transform cd w = Inr (content, w1)
         \<and> content = transform t \<and> files w1 = files w
         \<and> backup_step w1 = Inr w2
         \<and> files w2 backup_file = Some orig \<and> files w2 project_file = Some orig
         \<and> write_step cd content w2 = Inr w'
         \<and> files w' project_file = encode cd content
         \<and> files w' backup_file = Some orig"
proof -
  from assms obtain content w1 w2 where r: "read_and_transform cd w = Inr (content, w1)"
    and b: "backup_step w1 = Inr w2" and wr: "write_step cd content w2 = Inr w'"
    by (auto simp: run_script_Inr)
  from r obtain orig t where o: "files w project_file = Some orig" "decode cd orig = Some t"
    "content = transform t" and f1: "files w1 = files w"
    by (auto simp: read_and_transform_Inr)
  from b o(1) f1 have f2: "files w2 = (files w)(backup_file \<mapsto> orig)"
    by (auto simp: backup_step_Inr)
  from wr obtain out where out: "encode cd content = Some out"
    "files w' = (files w2)(project_file \<mapsto> out)"
    by (auto simp: write_step_Inr)
  from f2 o(1) have "files w2 backup_file = Some orig" "files w2 project_file = Some orig"
    using backup_file_neq by simp_all
  moreover from out f2 have "files w' project_file = encode cd content"
    "files w' backup_file = Some orig"
    using backup_file_neq by simp_all
  ultimately show ?thesis using o r f1 b wr by blast
qed

lemma example_search: "re_search True pattern example_input = Some (0, 130)"
  by code_simp

subsection \<open>Line-structured texts\<close>

lemma NL_neq_TAB [simp]: "NL \<noteq> TAB" "TAB \<noteq> NL"
  by (simp_all add: NL_def TAB_def)

lemma NL_notin_tabs4 [simp]: "NL \<notin> set tabs4"
  by (simp add: tabs4_def)

lemma line_pattern_phase: "line_pattern phase_ref_pattern"
  unfolding line_pattern_def
proof (intro conjI allI impI)
  show "\<exists>p. phase_ref_pattern = p @ [Once (Lit NL)] \<and> nl_free p"
    using phase_ref_pattern_split phase_ref_nl_free by blast
next
  fix s assume "\<not> prefix tabs4 s"
  then show "re_match False phase_ref_pattern s = None"
    by (simp add: phase_ref_pattern_def re_match_lit)
qed

lemma line_pattern_fixed: "line_pattern fixed_id_pattern"
  unfolding line_pattern_def
proof (intro conjI allI impI)
  show "\<exists>p. fixed_id_pattern = p @ [Once (Lit NL)] \<and> nl_free p"
    using fixed_id_pattern_split fixed_id_nl_free by blast
next
  fix s assume "\<not> prefix tabs4 s"
  then show "re_match False fixed_id_pattern s = None"
    by (simp add: fixed_id_pattern_def re_match_lit)
qed

lemma lp_tabs: "line_pattern P \<Longrightarrow> \<not> prefix tabs4 s \<Longrightarrow> re_match False P s = None"
  by (simp add: line_pattern_def)












declare re_sub.simps(1) [simp del]





















lemma NL_notin_markers [simp]: "NL \<notin> set begin_marker" "NL \<notin> set end_marker"
  by (simp_all add: begin_marker_def end_marker_def NL_def)

lemma TAB_notin_markers [simp]: "TAB \<notin> set begin_marker" "TAB \<notin> set end_marker"
  by (simp_all add: begin_marker_def end_marker_def TAB_def)







lemma re_sub_no_start:
  "(\<forall>j<length u. re_match d p (drop j (u @ v)) = None) \<Longrightarrow>
     re_sub d p repl (u @ v) = u @ re_sub d p repl v"
proof (induction u)
  case Nil
  show ?case by simp
next
  case (Cons c u)
  from Cons.prems have h: "re_match d p (c # u @ v) = None" by force
  from Cons.prems have "\<forall>j<length u. re_match d p (drop j (u @ v)) = None" by force
  with Cons.IH h show ?case by simp
qed

lemma no_tab_no_start:
  assumes "TAB \<notin> set u" "j < length u"
  shows "\<not> prefix tabs4 (drop j (u @ v))"
proof -
  from assms(2) have "drop j (u @ v) = u ! j # drop (Suc j) (u @ v)"
    by (simp add: Cons_nth_drop_Suc nth_append)
  moreover from assms have "u ! j \<noteq> TAB" by (metis nth_mem)
  ultimately show ?thesis by (simp add: tabs4_def)
qed

lemma re_sub_no_tab:
  assumes lp: "line_pattern P" and u: "TAB \<notin> set u"
  shows "re_sub False P [] (u @ v) = u @ re_sub False P [] v"
  by (rule re_sub_no_start) (use lp_tabs [OF lp] no_tab_no_start [OF u] in blast)

lemma re_sub_keep_stub:
  assumes lp: "line_pattern P" and a: "TAB \<notin> set a"
  shows "re_sub False P [] (a @ new_section @ v) = a @ new_section @ re_sub False P [] v"
proof -
  let ?u1 = "a @ begin_marker @ [NL]"
  have u1: "TAB \<notin> set ?u1" using a by simp
  have n1: "re_match False P (TAB # TAB # end_marker @ v) = None"
    by (rule lp_tabs [OF lp]) (simp add: tabs4_def end_marker_def TAB_def)
  have n2: "re_match False P (TAB # end_marker @ v) = None"
    by (rule lp_tabs [OF lp]) (simp add: tabs4_def end_marker_def TAB_def)
  have "re_sub False P [] (?u1 @ (TAB # TAB # end_marker @ v))
          = ?u1 @ re_sub False P [] (TAB # TAB # end_marker @ v)"
    by (rule re_sub_no_tab [OF lp u1])
  also have "re_sub False P [] (TAB # TAB # end_marker @ v)
          = TAB # TAB # re_sub False P [] (end_marker @ v)"
    by (simp only: re_sub_skip [OF n1] re_sub_skip [OF n2])
  also have "re_sub False P [] (end_marker @ v) = end_marker @ re_sub False P [] v"
    by (rule re_sub_no_tab [OF lp]) simp
  finally show ?thesis by (simp add: new_section_def)
qed

lemma transform_keep_stub:
  "TAB \<notin> set a \<Longrightarrow>
     strip_fixed_id (strip_phase_refs (a @ new_section @ v))
       = a @ new_section @ strip_fixed_id (strip_phase_refs v)"
  by (simp add: strip_fixed_id_def strip_phase_refs_def
        re_sub_keep_stub [OF line_pattern_phase] re_sub_keep_stub [OF line_pattern_fixed])

lemma find_sub_first:
  assumes "prefix w (drop n s)" "n \<le> length s" "\<forall>j<n. \<not> prefix w (drop j s)"
  shows "find_sub w s = Some n"
proof -
  from find_sub_prefix_at [OF assms(1,2)] obtain k where k: "k \<le> n" "find_sub w s = Some k"
    by blast
  from find_sub_Some_D [OF k(2)] have "prefix w (drop k s)" by blast
  with assms(3) k(1) have "k = n" by (cases "k < n") auto
  with k(2) show ?thesis by simp
qed

text \<open>No begin marker starts left of the first span.\<close>

lemma first_begin:
  assumes m: "re_search True pattern t = Some (b, e)" and j: "j < b"
  shows "\<not> prefix begin_marker (drop j t)"
proof
  assume p: "prefix begin_marker (drop j t)"
  from re_search_Some_D [OF m] have be: "b \<le> e" "e \<le> length t"
    and before: "\<forall>j<b. re_match True pattern (drop j t) = None" by auto
  from section_step_Some [OF m]
  obtain body where t: "t = take b t @ begin_marker @ body @ end_marker @ drop e t" by blast
  have lb: "length (take b t) = b" using be by simp
  have q: "drop j (take b t) \<noteq> []" using j lb by simp
  have d: "drop j t = drop j (take b t) @ begin_marker @ body @ end_marker @ drop e t"
    by (subst t) (use j lb in simp)
  with p have "prefix begin_marker (drop j (take b t) @ begin_marker @ (body @ end_marker @ drop e t))"
    by simp
  from begin_earlier_matches [OF q this, of body "drop e t"] d
  have "re_match True pattern (drop j t) \<noteq> None" by auto
  with before j show False by simp
qed

lemma first_begin_find:
  assumes m: "re_search True pattern t = Some (b, e)"
  shows "find_sub begin_marker t = Some b"
proof (rule find_sub_first)
  from re_search_Some_D [OF m] have be: "b \<le> e" "e \<le> length t"
    and at: "re_match True pattern (drop b t) = Some (e - b)" by auto
  from at show "prefix begin_marker (drop b t)" by (simp add: pattern_match split: if_splits)
  from be show "b \<le> length t" by simp
  from first_begin [OF m] show "\<forall>j<b. \<not> prefix begin_marker (drop j t)" by blast
qed


text \<open>The first span, given by the first begin marker and the first end marker behind it.\<close>

lemma first_span_search:
  assumes t: "t = a @ begin_marker @ x @ end_marker @ c"
    and fb: "find_sub begin_marker t = Some (length a)"
    and fe: "find_sub end_marker (x @ end_marker @ c) = Some (length x)"
  shows "re_search True pattern t
           = Some (length a, length a + length (begin_marker @ x @ end_marker))"
proof -
  have at: "re_match True pattern (drop (length a) t)
              = Some (length begin_marker + (length x + length end_marker))"
    using fe by (simp add: t pattern_match)
  have before: "\<forall>j<length a. re_match True pattern (drop j t) = None"
    using find_sub_Some_D [OF fb] by (simp add: pattern_match)
  have "length a \<le> length t" by (simp add: t)
  from re_search_SomeI [OF at this before] show ?thesis by (simp add: add.assoc)
qed

lemma first_span_replaced:
  assumes t: "t = a @ begin_marker @ x @ end_marker @ c"
    and fb: "find_sub begin_marker t = Some (length a)"
    and fe: "find_sub end_marker (x @ end_marker @ c) = Some (length x)"
  shows "replace_section t
           = a @ new_section @ py_replace (begin_marker @ x @ end_marker) new_section c"
proof -
  note m = first_span_search [OF t fb fe]
  have tk: "take (length a) t = a" by (simp add: t)
  have dr: "drop (length a + length (begin_marker @ x @ end_marker)) t = c" by (simp add: t)
  have g: "group0 t (length a, length a + length (begin_marker @ x @ end_marker))
             = begin_marker @ x @ end_marker"
    by (simp add: group0_def t)
  from section_step_Some [OF m] show ?thesis by (simp only: tk dr g) blast
qed

lemma first_span_exists:
  assumes t: "t = a @ begin_marker @ x @ end_marker @ c"
  shows "\<exists>a' x' c'. t = a' @ begin_marker @ x' @ end_marker @ c' \<and> length a' \<le> length a
           \<and> find_sub begin_marker t = Some (length a')
           \<and> find_sub end_marker (x' @ end_marker @ c') = Some (length x')"
proof -
  from t have "re_search True pattern t \<noteq> None" using section_search_iff [of t] by blast
  then obtain b e where m: "re_search True pattern t = Some (b, e)" by auto
  from re_search_Some_D [OF m] have be: "b \<le> e" "e \<le> length t"
    and at: "re_match True pattern (drop b t) = Some (e - b)" by auto
  from at have pb: "prefix begin_marker (drop b t)" by (simp add: pattern_match split: if_splits)
  then obtain u where u: "drop b t = begin_marker @ u" by (auto simp: prefix_def)
  from at pb u obtain k where k: "find_sub end_marker u = Some k" by (auto simp: pattern_match)
  from find_sub_Some_D [OF k] have kl: "k \<le> length u" and pe: "prefix end_marker (drop k u)"
    by auto
  from pe obtain c' where c': "drop k u = end_marker @ c'" by (auto simp: prefix_def)
  define a' where "a' = take b t"
  define x' where "x' = take k u"
  have uu: "u = x' @ end_marker @ c'" using c' by (metis append_take_drop_id x'_def)
  have lx: "length x' = k" using kl by (simp add: x'_def)
  have la: "length a' = b" using be by (simp add: a'_def)
  have t': "t = a' @ begin_marker @ x' @ end_marker @ c'"
    using u uu by (metis append_take_drop_id a'_def)
  from section_step_leftmost [OF m t] have "length a' \<le> length a" by (simp add: la)
  moreover from first_begin_find [OF m] have "find_sub begin_marker t = Some (length a')"
    by (simp add: la)
  moreover from k have "find_sub end_marker (x' @ end_marker @ c') = Some (length x')"
    by (simp add: uu [symmetric] lx)
  ultimately show ?thesis using t' by blast
qed









lemma build_phases_output:
  "transform build_phases_input =
     [TAB, TAB, TAB] @ ''buildPhases = ('' @ [NL]
     @ tabs4 @ ''33CC10E92044A3C60003C045 /* Sources */,'' @ [NL]
     @ [TAB, TAB, TAB] @ '');'' @ [NL]
     @ new_section @ [NL]"
  by code_simp

lemma framed_first_span:
  "framed_input = ''ab'' @ begin_marker @ ''xyz12'' @ end_marker @ ''cd''"
  "find_sub begin_marker framed_input = Some (length ''ab'')"
  "find_sub end_marker (''xyz12'' @ end_marker @ ''cd'') = Some (length ''xyz12'')"
  "TAB \<notin> set ''ab''"
  "strip_fixed_id (strip_phase_refs
     (py_replace (begin_marker @ ''xyz12'' @ end_marker) new_section ''cd'')) = ''cd''"
  by code_simp+

section \<open>The claims\<close>

subsection \<open>C8: the section step is idempotent\<close>

text \<open>
  C8. Applying the section step to its own output changes nothing: the search finds, at
  the place of the first match, exactly the two-marker stub, and replacing the stub by
  the stub leaves the text as it is.
\<close>

theorem section_replacement_idempotent:
  "replace_section (replace_section t) = replace_section t
   \<and> (re_search True pattern t = Some (b, e) \<longrightarrow>
        re_search True pattern (replace_section t) = Some (b, b + length new_section)
        \<and> group0 (replace_section t) (b, b + length new_section) = new_section)"
  using replace_section_idem [of t] stub_search [of t b e] by blast

theorem section_replacement_idempotent_witness:
  "re_search True pattern example_input = Some (0, 130)
   \<and> replace_section (replace_section example_input) = replace_section example_input
   \<and> re_search True pattern (replace_section example_input) = Some (0, 0 + length new_section)
   \<and> group0 (replace_section example_input) (0, 0 + length new_section) = new_section"
  using section_replacement_idempotent [of example_input 0 130] example_search by blast

subsection \<open>C2: the first span becomes the stub\<close>

text \<open>
  C2, as amended. A text that contains a span from the begin marker to the end marker
  has a first such span: it starts at the first begin marker of the text, not to the
  right of the given span, and ends with the first end marker behind that begin marker.
  The section step replaces this first span by the stub, the two markers with only a
  newline and two tabs between them. The two line substitutions then run on the result;
  when no tab stands before the span they leave the text before the stub and the stub as
  they are. On the example of the specification the transformation yields exactly the
  stub.
\<close>

theorem first_span_replaced_by_stub:
  "(t = a @ begin_marker @ x @ end_marker @ c \<longrightarrow>
      (\<exists>a' x' c'. t = a' @ begin_marker @ x' @ end_marker @ c' \<and> length a' \<le> length a
         \<and> find_sub begin_marker t = Some (length a')
         \<and> find_sub end_marker (x' @ end_marker @ c') = Some (length x')))
   \<and> (t = a @ begin_marker @ x @ end_marker @ c
        \<and> find_sub begin_marker t = Some (length a)
        \<and> find_sub end_marker (x @ end_marker @ c) = Some (length x) \<longrightarrow>
          re_search True pattern t
            = Some (length a, length a + length (begin_marker @ x @ end_marker))
        \<and> replace_section t
            = a @ new_section @ py_replace (begin_marker @ x @ end_marker) new_section c
        \<and> transform t
            = strip_fixed_id (strip_phase_refs
                (a @ new_section @ py_replace (begin_marker @ x @ end_marker) new_section c))
        \<and> (TAB \<notin> set a \<longrightarrow>
             transform t
               = a @ new_section @ strip_fixed_id (strip_phase_refs
                   (py_replace (begin_marker @ x @ end_marker) new_section c))))
   \<and> new_section = begin_marker @ [NL, TAB, TAB] @ end_marker
   \<and> transform example_input = new_section"
proof (intro conjI impI)
  assume "t = a @ begin_marker @ x @ end_marker @ c"
  then show "\<exists>a' x' c'. t = a' @ begin_marker @ x' @ end_marker @ c' \<and> length a' \<le> length a
         \<and> find_sub begin_marker t = Some (length a')
         \<and> find_sub end_marker (x' @ end_marker @ c') = Some (length x')"
    by (rule first_span_exists)
next
  assume h: "t = a @ begin_marker @ x @ end_marker @ c
        \<and> find_sub begin_marker t = Some (length a)
        \<and> find_sub end_marker (x @ end_marker @ c) = Some (length x)"
  then have t: "t = a @ begin_marker @ x @ end_marker @ c"
    and fb: "find_sub begin_marker t = Some (length a)"
    and fe: "find_sub end_marker (x @ end_marker @ c) = Some (length x)" by blast+
  show "re_search True pattern t
          = Some (length a, length a + length (begin_marker @ x @ end_marker))"
    by (rule first_span_search [OF t fb fe])
  show rs: "replace_section t
          = a @ new_section @ py_replace (begin_marker @ x @ end_marker) new_section c"
    by (rule first_span_replaced [OF t fb fe])
  show tr: "transform t
          = strip_fixed_id (strip_phase_refs
              (a @ new_section @ py_replace (begin_marker @ x @ end_marker) new_section c))"
    by (simp only: transform_def rs)
  assume "TAB \<notin> set a"
  from transform_keep_stub [OF this] tr
  show "transform t
               = a @ new_section @ strip_fixed_id (strip_phase_refs
                   (py_replace (begin_marker @ x @ end_marker) new_section c))"
    by (simp only:)
next
  show "new_section = begin_marker @ [NL, TAB, TAB] @ end_marker" by (simp add: new_section_def)
next
  show "transform example_input = new_section" by (rule example_output)
qed

theorem first_span_replaced_by_stub_witness:
  "framed_input = ''ab'' @ begin_marker @ ''xyz12'' @ end_marker @ ''cd''
   \<and> find_sub begin_marker framed_input = Some (length ''ab'')
   \<and> find_sub end_marker (''xyz12'' @ end_marker @ ''cd'') = Some (length ''xyz12'')
   \<and> TAB \<notin> set ''ab''
   \<and> replace_section framed_input
        = ''ab'' @ new_section
            @ py_replace (begin_marker @ ''xyz12'' @ end_marker) new_section ''cd''
   \<and> transform framed_input = ''ab'' @ new_section @ ''cd''"
proof -
  note th = first_span_replaced_by_stub [of framed_input "''ab''" "''xyz12''" "''cd''"]
  from th framed_first_span(1-3)
  have rs: "replace_section framed_input
        = ''ab'' @ new_section
            @ py_replace (begin_marker @ ''xyz12'' @ end_marker) new_section ''cd''"
    by blast
  from th framed_first_span(1-4)
  have "transform framed_input
          = ''ab'' @ new_section @ strip_fixed_id (strip_phase_refs
              (py_replace (begin_marker @ ''xyz12'' @ end_marker) new_section ''cd''))"
    by blast
  then have "transform framed_input = ''ab'' @ new_section @ ''cd''"
    by (simp only: framed_first_span(5))
  with rs framed_first_span(1-4) show ?thesis by blast
qed

text \<open>
  The claim as stated fails: the last substitution removes the head of the stub when the
  begin marker stands on a line that starts with four tabs and the fixed identifier, and
  a second, different span keeps its body.
\<close>

theorem first_span_replaced_by_stub_counterexample:
  "transform eaten_stub_input = [TAB, TAB] @ end_marker
   \<and> \<not> sublist new_section (transform eaten_stub_input)
   \<and> replace_section two_sections_input
        = new_section @ ''mid'' @ begin_marker @ ''two'' @ end_marker
   \<and> transform two_sections_input
        = new_section @ ''mid'' @ begin_marker @ ''two'' @ end_marker"
  by code_simp

subsection \<open>C7: which span is replaced, and what else\<close>

text \<open>
  C7, as amended. The section step takes the first span: no match starts further left,
  and the span ends with the first end marker behind its begin marker. The text before
  the span is kept. Behind the span every further occurrence of the matched text is
  replaced as well (\<^verbatim>\<open>str.replace\<close> replaces all of them); the text behind the span is
  kept when the matched text does not occur in it again.
\<close>

theorem section_step_first_span:
  assumes "re_search True pattern t = Some (b, e)"
  shows "(\<forall>j<b. re_match True pattern (drop j t) = None)
   \<and> (\<exists>body. group0 t (b, e) = begin_marker @ body @ end_marker
         \<and> (\<forall>k<length body. \<not> prefix end_marker (drop k (body @ end_marker))))
   \<and> replace_section t =
       take b t @ new_section @ py_replace (group0 t (b, e)) new_section (drop e t)
   \<and> (occurrences (group0 t (b, e)) (drop e t) = [] \<longrightarrow>
        replace_section t = take b t @ new_section @ drop e t)"
proof -
  from section_step_Some [OF assms]
  obtain body where g: "group0 t (b, e) = begin_marker @ body @ end_marker"
    and sh: "\<forall>k<length body. \<not> prefix end_marker (drop k (body @ end_marker))"
    and rs: "replace_section t =
       take b t @ new_section @ py_replace (group0 t (b, e)) new_section (drop e t)"
    by blast
  have ne: "group0 t (b, e) \<noteq> []" by (simp add: g begin_marker_def)
  have "py_replace (group0 t (b, e)) new_section (drop e t) = drop e t"
    if "occurrences (group0 t (b, e)) (drop e t) = []"
  proof (rule py_replace_absent [OF ne], intro allI impI)
    fix j assume "j \<le> length (drop e t)"
    with that occurrences_iff [of j "group0 t (b, e)" "drop e t"]
    show "\<not> prefix (group0 t (b, e)) (drop j (drop e t))" by simp
  qed
  with rs g sh re_search_Some_D [OF assms] show ?thesis by auto
qed

theorem section_step_first_span_witness:
  "re_search True pattern framed_input = Some (2, 93)
   \<and> occurrences (group0 framed_input (2, 93)) (drop 93 framed_input) = []
   \<and> replace_section framed_input = ''ab'' @ new_section @ ''cd''"
proof -
  have tk: "take 2 framed_input = ''ab''" "drop 93 framed_input = ''cd''"
    by code_simp+
  from section_step_first_span [OF framed_search] framed_no_repeat
  have "replace_section framed_input
          = take 2 framed_input @ new_section @ drop 93 framed_input" by blast
  with framed_search framed_no_repeat show ?thesis by (simp only: tk)
qed

text \<open>
  The claim as stated fails on a text that repeats the section: the first span is
  characters 0 to 87, and the text behind it is changed too.
\<close>

theorem section_step_first_span_counterexample:
  "re_search True pattern repeated_section_input = Some (0, 87)
   \<and> drop 87 repeated_section_input = ''y'' @ begin_marker @ ''x'' @ end_marker
   \<and> replace_section repeated_section_input = new_section @ ''y'' @ new_section
   \<and> replace_section repeated_section_input
        \<noteq> take 0 repeated_section_input @ new_section @ drop 87 repeated_section_input"
  by code_simp

subsection \<open>C6: the output is shorter\<close>

text \<open>
  C6, as amended. For a text with exactly one begin marker and exactly one end marker,
  with more than three characters between them, the output is strictly shorter than the
  input. (The stub keeps a newline and two tabs between the markers.)
\<close>

theorem single_block_output_shorter:
  assumes "occurrences begin_marker t = [i]"
    and "occurrences end_marker t = [k]"
    and "i + length begin_marker + 3 < k"
  shows "length (transform t) < length t"
proof -
  from assms(3) have ik: "i + length begin_marker \<le> k" by simp
  from single_block_search [OF assms(1,2) ik]
  have m: "re_search True pattern t = Some (i, k + length end_marker)" .
  have ns: "length new_section = length begin_marker + 3 + length end_marker"
    by (simp add: new_section_def)
  from assms(3) have long: "length new_section < k + length end_marker - i"
    by (simp add: ns)
  from length_replace_section [OF m] long
  have "length (replace_section t) < length t" by simp
  with length_transform_le [of t] show ?thesis by simp
qed

theorem single_block_output_shorter_witness:
  "occurrences begin_marker framed_input = [2]
   \<and> occurrences end_marker framed_input = [51]
   \<and> 2 + length begin_marker + 3 < (51 :: nat)
   \<and> length (transform framed_input) < length framed_input"
proof -
  have ob: "occurrences begin_marker framed_input = [2]" by code_simp
  have oe: "occurrences end_marker framed_input = [51]" by code_simp
  have lt: "2 + length begin_marker + 3 < (51 :: nat)" by code_simp
  from single_block_output_shorter [OF ob oe lt] ob oe lt show ?thesis by simp
qed

text \<open>
  The claim as stated fails for a body of one character: the output is two characters
  longer than the input.
\<close>

theorem single_block_output_shorter_counterexample:
  "occurrences begin_marker short_body_input = [0]
   \<and> occurrences end_marker short_body_input = [45]
   \<and> group0 short_body_input (0, 87) = begin_marker @ ''x'' @ end_marker
   \<and> length short_body_input = 87
   \<and> length (transform short_body_input) = 89"
  by code_simp

subsection \<open>C1: the backup is the original file\<close>

text \<open>
  C1. When the script runs to completion, the project file existed and could be decoded,
  and afterwards the backup file holds exactly the bytes the project file had before the
  run. The copy is taken from the file on disk while the project file still holds the
  original bytes (world \<open>w2\<close>), and the transformed text is written to the project file
  after that.
\<close>

theorem backup_is_original:
  assumes "run_script cd w = Inr w'"
  shows "\<exists>orig t content w1 w2.
           files w project_file = Some orig \<and> decode cd orig = Some t
         \<and> read_and_transform cd w = Inr (content, w1)
         \<and> content = transform t \<and> files w1 = files w
         \<and> backup_step w1 = Inr w2
         \<and> files w2 backup_file = Some orig \<and> files w2 project_file = Some orig
         \<and> write_step cd content w2 = Inr w'
         \<and> files w' project_file = encode cd content
         \<and> files w' backup_file = Some orig"
  using assms by (rule run_script_phases)

theorem backup_is_original_witness:
  "\<exists>w'. run_script codec0 world0 = Inr w'
     \<and> files world0 backup_file = Some ''old backup''
     \<and> files w' backup_file = Some example_input
     \<and> files w' project_file = Some new_section"
proof -
  from world0_run obtain w' where r: "run_script codec0 world0 = Inr w'" by blast
  have f: "files world0 project_file = Some example_input"
    using backup_file_neq by (simp add: world0_def)
  from backup_is_original [OF r] f
  have "files w' backup_file = Some example_input"
    "files w' project_file = Some new_section"
    by (auto simp: codec0_def example_output)
  with r show ?thesis by (auto simp: world0_def)
qed

subsection \<open>C10: a second run overwrites the backup\<close>

text \<open>
  C10. The backup step writes the backup file whatever it held before. After two runs
  in a row the backup file holds what the first run wrote to the project file, which is
  the encoded transformed text, not the bytes from before the first run.
\<close>

theorem second_run_backup_is_first_output:
  assumes "run_script cd w = Inr w1" and "run_script cd w1 = Inr w2"
  shows "files w1 backup_file = files w project_file
       \<and> files w2 backup_file = files w1 project_file
       \<and> (\<exists>orig t. files w project_file = Some orig \<and> decode cd orig = Some t
             \<and> files w2 backup_file = encode cd (transform t))"
proof -
  from run_script_phases [OF assms(1)]
  obtain orig t where o: "files w project_file = Some orig" "decode cd orig = Some t"
    "files w1 project_file = encode cd (transform t)" "files w1 backup_file = Some orig"
    by blast
  from run_script_phases [OF assms(2)]
  obtain orig1 where o1: "files w1 project_file = Some orig1" "files w2 backup_file = Some orig1"
    by blast
  from o o1 show ?thesis by auto
qed

theorem second_run_backup_is_first_output_witness:
  "\<exists>w1 w2. run_script codec0 world0 = Inr w1 \<and> run_script codec0 w1 = Inr w2
     \<and> files world0 backup_file = Some ''old backup''
     \<and> files w1 backup_file = Some example_input
     \<and> files w2 backup_file = Some new_section"
proof -
  from world0_run obtain w1 where r1: "run_script codec0 world0 = Inr w1" by blast
  have f0: "files world0 project_file = Some example_input"
    using backup_file_neq by (simp add: world0_def)
  from r1 f0 have f1: "files w1 project_file = Some new_section"
    using run_script_success [of world0 example_input codec0 example_input new_section]
    by (auto simp: codec0_def example_output)
  have "decode codec0 new_section = Some new_section"
    "encode codec0 (transform new_section) = Some new_section"
    by (simp_all add: codec0_def stub_output)
  from run_script_success [OF f1 this]
  obtain w2 where r2: "run_script codec0 w1 = Inr w2" by blast
  from second_run_backup_is_first_output [OF r1 r2] f0 f1
  have "files w1 backup_file = Some example_input" "files w2 backup_file = Some new_section"
    by simp_all
  with r1 r2 show ?thesis by (auto simp: world0_def)
qed

subsection \<open>C5: a text without the section\<close>

text \<open>
  C5. For a text with no span from the begin marker to the end marker, the search finds
  nothing, the section step leaves the text as it is, and the output is the text with
  the two line substitutions applied. The script does not fail: it prints the warning
  instead of the success message and goes on to write the file.
\<close>

theorem no_section_only_line_removals:
  assumes "\<not> (\<exists>a x c. t = a @ begin_marker @ x @ end_marker @ c)"
  shows "re_search True pattern t = None
       \<and> replace_section t = t
       \<and> transform t = strip_fixed_id (strip_phase_refs t)
       \<and> (files w project_file = Some bytes \<and> decode cd bytes = Some t
            \<and> encode cd (transform t) = Some out \<longrightarrow>
          (\<exists>w'. run_script cd w = Inr w'
             \<and> files w' project_file = Some out
             \<and> stdout w' = stdout w @
                 [Reading_project_file, Original_file_size (length t), No_section_found,
                  Modified_file_size (length (transform t)),
                  Created_backup backup_file, Updated_successfully, Next_steps]))"
proof -
  from assms have n: "re_search True pattern t = None"
    using section_search_iff [of t] by blast
  then have r: "replace_section t = t" by (simp add: replace_section_def)
  then have tr: "transform t = strip_fixed_id (strip_phase_refs t)" by (simp add: transform_def)
  have "\<exists>w'. run_script cd w = Inr w'
             \<and> files w' project_file = Some out
             \<and> stdout w' = stdout w @
                 [Reading_project_file, Original_file_size (length t), No_section_found,
                  Modified_file_size (length (transform t)),
                  Created_backup backup_file, Updated_successfully, Next_steps]"
    if "files w project_file = Some bytes" "decode cd bytes = Some t"
      "encode cd (transform t) = Some out"
    using run_script_success [OF that] n by simp
  with n r tr show ?thesis by blast
qed

theorem no_section_only_line_removals_witness:
  "\<not> (\<exists>a x c. no_section_input = a @ begin_marker @ x @ end_marker @ c)
   \<and> replace_section no_section_input = no_section_input
   \<and> transform no_section_input = strip_fixed_id (strip_phase_refs no_section_input)
   \<and> transform no_section_input = ''keep'' @ [NL]
   \<and> (\<exists>w'. run_script codec0 world_plain = Inr w'
         \<and> files w' project_file = Some (''keep'' @ [NL])
         \<and> stdout w' = stdout world_plain @
              [Reading_project_file, Original_file_size (length no_section_input),
               No_section_found, Modified_file_size (length (transform no_section_input)),
               Created_backup backup_file, Updated_successfully, Next_steps])"
proof -
  have ns: "\<not> (\<exists>a x c. no_section_input = a @ begin_marker @ x @ end_marker @ c)"
    using section_search_iff [of no_section_input] no_section_search by simp
  have h: "files world_plain project_file = Some no_section_input
       \<and> decode codec0 no_section_input = Some no_section_input
       \<and> encode codec0 (transform no_section_input) = Some (''keep'' @ [NL])"
    by (simp add: world_plain_def codec0_def no_section_output)
  from no_section_only_line_removals
         [OF ns, of world_plain no_section_input codec0 "''keep'' @ [NL]"] h ns no_section_output
  show ?thesis by blast
qed

subsection \<open>C3: lines with the fixed identifier\<close>

text \<open>
  C3, as amended. A line that is complete (it starts the text or follows a newline, and
  it ends with a newline) and begins with four tabs and the identifier
  \<^verbatim>\<open>33CC111E2044C6BF0003C045\<close> is removed by the last substitution together with its
  newline, whatever follows the identifier on the line; the text around it is treated as
  if the line had not been there. This holds for such a line in the text that the two
  earlier steps hand on.
\<close>

theorem fixed_id_lines_removed:
  assumes "pre = [] \<or> last pre = NL" and "NL \<notin> set rest"
  shows "strip_fixed_id (pre @ tabs4 @ fixed_id @ rest @ [NL] @ post)
           = strip_fixed_id pre @ strip_fixed_id post
       \<and> (strip_phase_refs (replace_section t) = pre @ tabs4 @ fixed_id @ rest @ [NL] @ post
            \<longrightarrow> transform t = strip_fixed_id pre @ strip_fixed_id post)"
  using strip_fixed_id_line [OF assms, of post] by (simp add: transform_def)

theorem fixed_id_lines_removed_witness:
  "last (''keep'' @ [NL]) = NL \<and> NL \<notin> set '' /* ShellScript */,''
   \<and> strip_phase_refs (replace_section id_lines_input)
        = (''keep'' @ [NL]) @ tabs4 @ fixed_id @ '' /* ShellScript */,'' @ [NL] @ (''more'' @ [NL])
   \<and> transform id_lines_input = (''keep'' @ [NL]) @ (''more'' @ [NL])"
proof -
  have a: "(''keep'' @ [NL]) = [] \<or> last (''keep'' @ [NL]) = NL" by simp
  have b: "NL \<notin> set '' /* ShellScript */,''" by (simp add: NL_def)
  have c: "strip_phase_refs (replace_section id_lines_input)
        = (''keep'' @ [NL]) @ tabs4 @ fixed_id @ '' /* ShellScript */,'' @ [NL] @ (''more'' @ [NL])"
    by (simp add: id_lines_before) (simp add: id_lines_input_def)
  from fixed_id_lines_removed [OF a b, of "''more'' @ [NL]" id_lines_input] c
  have "transform id_lines_input = strip_fixed_id (''keep'' @ [NL]) @ strip_fixed_id (''more'' @ [NL])"
    by blast
  then have "transform id_lines_input = (''keep'' @ [NL]) @ (''more'' @ [NL])"
    by (simp only: strip_fixed_id_plain)
  with b c show ?thesis by simp
qed

text \<open>
  The claim as stated fails: a line that begins with the identifier itself, without the
  four tabs, is kept; so is a last line without a newline; and removing a match can join
  the text before and behind it into a new line that begins with four tabs and the
  identifier.
\<close>

theorem fixed_id_lines_removed_counterexample:
  "transform bare_id_line = bare_id_line
   \<and> prefix fixed_id bare_id_line
   \<and> transform unterminated_id_line = unterminated_id_line
   \<and> transform split_id_input = tabs4 @ fixed_id @ '' y'' @ [NL]"
  by code_simp

subsection \<open>C4: lines that refer to a shell script build phase\<close>

text \<open>
  C4, as amended. A complete line made of exactly four tabs, a non-empty identifier of
  the characters 0-9 and A-F, a space, the comment \<^verbatim>\<open>/* PBXShellScriptBuildPhase */\<close>, an
  optional comma and the newline is removed by the first substitution, in the text that
  the section step hands on; the text around it is treated as if the line had not been
  there.
\<close>

theorem phase_ref_lines_removed:
  assumes "pre = [] \<or> last pre = NL" and "h \<noteq> []" and "set h \<subseteq> set ''0123456789ABCDEF''"
    and "comma = [] \<or> comma = '',''"
  shows "strip_phase_refs (pre @ tabs4 @ h @ phase_comment @ comma @ [NL] @ post)
           = strip_phase_refs pre @ strip_phase_refs post
       \<and> (replace_section t = pre @ tabs4 @ h @ phase_comment @ comma @ [NL] @ post
            \<longrightarrow> transform t = strip_fixed_id (strip_phase_refs pre @ strip_phase_refs post))"
  using strip_phase_refs_line [OF assms, of post] by (simp add: transform_def)

theorem phase_ref_lines_removed_witness:
  "last (''keep'' @ [NL]) = NL \<and> ''AB12'' \<noteq> [] \<and> set ''AB12'' \<subseteq> set ''0123456789ABCDEF''
   \<and> replace_section phase_lines_input
        = (''keep'' @ [NL]) @ tabs4 @ ''AB12'' @ phase_comment @ '','' @ [NL] @ (''more'' @ [NL])
   \<and> transform phase_lines_input = (''keep'' @ [NL]) @ (''more'' @ [NL])"
proof -
  have a: "(''keep'' @ [NL]) = [] \<or> last (''keep'' @ [NL]) = NL" by simp
  have b: "''AB12'' \<noteq> []" "set ''AB12'' \<subseteq> set ''0123456789ABCDEF''" by simp_all
  have cm: "'','' = [] \<or> '','' = '',''" by simp
  have c: "replace_section phase_lines_input
        = (''keep'' @ [NL]) @ tabs4 @ ''AB12'' @ phase_comment @ '','' @ [NL] @ (''more'' @ [NL])"
    by (simp add: phase_lines_before) (simp add: phase_lines_input_def)
  from phase_ref_lines_removed [OF a b cm, of "''more'' @ [NL]" phase_lines_input] c
  have "transform phase_lines_input
          = strip_fixed_id (strip_phase_refs (''keep'' @ [NL]) @ strip_phase_refs (''more'' @ [NL]))"
    by blast
  then have "transform phase_lines_input = (''keep'' @ [NL]) @ (''more'' @ [NL])"
    by (simp only: strip_plain)
  with b c show ?thesis by simp
qed

text \<open>
  The claim as stated fails: a line indented by three tabs is kept, a line with a
  lower-case identifier is kept, and removing a match can join the text before and
  behind it into a new line of the same form, which then stands in the output.
\<close>

theorem phase_ref_lines_removed_counterexample:
  "transform three_tab_line = three_tab_line
   \<and> transform lower_case_line = lower_case_line
   \<and> transform joined_input = tabs4 @ ''AB'' @ phase_comment @ [NL]"
  by code_simp

subsection \<open>C9: the whole transformation applied twice\<close>




end
